theory Spec2Isabelle
  imports Main "HOL-Library.Word"
begin

section \<open>The heap of list nodes\<close>

text \<open>
  The Go source (\<^verbatim>\<open>list.go\<close>) keeps a sorted set of integers in a singly linked list
  with a sentinel head. A pointer \<^verbatim>\<open>*intNode\<close> is an address or nil; the heap is the
  list of all nodes allocated so far, a node's address being its index. The two
  \<^verbatim>\<open>atomic.Value\<close> fields hold nothing until the first \<^verbatim>\<open>Store\<close>; the mutex is
  \<open>True\<close> while some goroutine holds it. Node values are Go \<^verbatim>\<open>int\<close>s, which the code
  only copies and compares: they are modelled by the integer they denote. The counter is
  an \<^verbatim>\<open>int64\<close> changed by \<^verbatim>\<open>atomic.AddInt64\<close>, which wraps around.
\<close>

type_synonym addr = nat
type_synonym ptr = "addr option"

record intNode =
  "value" :: int
  nextPtr :: "ptr option"
  markedValue :: "bool option"
  mutex :: bool

record state =
  heap :: "intNode list"
  root :: ptr
  size :: "64 word"

datatype error = NilDereference | UnlockOfUnlockedMutex

text \<open>\<^verbatim>\<open>marked\<close> (line 36): the type assertion fails on an empty \<^verbatim>\<open>atomic.Value\<close>.\<close>

definition marked :: "intNode \<Rightarrow> bool" where
  "marked n = (case markedValue n of None \<Rightarrow> False | Some b \<Rightarrow> b)"

text \<open>\<^verbatim>\<open>mark\<close> (line 32).\<close>

definition mark :: "intNode \<Rightarrow> intNode" where
  "mark n = n\<lparr>markedValue := Some True\<rparr>"

text \<open>\<^verbatim>\<open>next\<close> (line 41): nil when nothing was stored yet.\<close>

definition "next" :: "intNode \<Rightarrow> ptr" where
  "next n = (case nextPtr n of None \<Rightarrow> None | Some p \<Rightarrow> p)"

text \<open>\<^verbatim>\<open>updateNext\<close> (line 46).\<close>

definition updateNext :: "intNode \<Rightarrow> ptr \<Rightarrow> intNode" where
  "updateNext n p = n\<lparr>nextPtr := Some p\<rparr>"

text \<open>\<^verbatim>\<open>newIntNode\<close> (line 50): every field but the value has its zero value.\<close>

definition newIntNode :: "int \<Rightarrow> intNode" where
  "newIntNode v = \<lparr>value = v, nextPtr = None, markedValue = None, mutex = False\<rparr>"

text \<open>
  Reading through a pointer. Go panics on nil; an address outside the heap cannot arise in
  Go, and is treated like nil here.
\<close>

definition deref :: "state \<Rightarrow> ptr \<Rightarrow> error + intNode" where
  "deref s p =
     (case p of
        None \<Rightarrow> Inl NilDereference
      | Some a \<Rightarrow> if a < length (heap s) then Inr (heap s ! a) else Inl NilDereference)"

text \<open>Writing a node back at its address, and allocating a fresh node.\<close>

definition store :: "state \<Rightarrow> addr \<Rightarrow> intNode \<Rightarrow> state" where
  "store s a n = s\<lparr>heap := (heap s)[a := n]\<rparr>"

definition alloc :: "state \<Rightarrow> intNode \<Rightarrow> state \<times> addr" where
  "alloc s n = (s\<lparr>heap := heap s @ [n]\<rparr>, length (heap s))"

text \<open>\<^verbatim>\<open>sizeIncr\<close>, \<^verbatim>\<open>sizeDecr\<close> and \<^verbatim>\<open>Len\<close> (lines 153 to 164).\<close>

definition sizeIncr :: "state \<Rightarrow> state" where
  "sizeIncr s = s\<lparr>size := size s + 1\<rparr>"

definition sizeDecr :: "state \<Rightarrow> state" where
  "sizeDecr s = s\<lparr>size := size s - 1\<rparr>"

definition Len :: "state \<Rightarrow> int" where
  "Len s = sint (size s)"

text \<open>\<^verbatim>\<open>NewConcurrentIntList\<close> (line 60): one node, the sentinel, at address 0.\<close>

definition NewConcurrentIntList :: state where
  "NewConcurrentIntList = \<lparr>heap = [newIntNode (- 1)], root = Some 0, size = 0\<rparr>"

section \<open>The operations as machines taking one atomic step at a time\<close>

text \<open>
  A call is run one statement at a time. A program point is named after its source line
  and carries the local variables that are live there. A step either moves on (perhaps
  changing the shared state), returns, cannot be taken now because the mutex it wants is
  held, or panics.
\<close>

datatype ('l, 'r) step = Step state 'l | Return 'r | Blocked | Panic error

text \<open>\<^verbatim>\<open>Lock\<close> and \<^verbatim>\<open>Unlock\<close> of the mutex of the node a pointer refers to.\<close>

definition Lock :: "state \<Rightarrow> ptr \<Rightarrow> 'l \<Rightarrow> ('l, 'r) step" where
  "Lock s p l =
     (case deref s p of
        Inl e \<Rightarrow> Panic e
      | Inr n \<Rightarrow> if mutex n then Blocked else Step (store s (the p) (n\<lparr>mutex := True\<rparr>)) l)"

definition Unlock :: "state \<Rightarrow> ptr \<Rightarrow> 'l \<Rightarrow> ('l, 'r) step" where
  "Unlock s p l =
     (case deref s p of
        Inl e \<Rightarrow> Panic e
      | Inr n \<Rightarrow> if mutex n then Step (store s (the p) (n\<lparr>mutex := False\<rparr>)) l
                else Panic UnlockOfUnlockedMutex)"

subsection \<open>Contains (lines 64 to 73)\<close>

datatype contains_pc =
    C65 int
  | C66 int ptr
  | C67 int ptr
  | C69 int ptr

fun Contains_step :: "state \<Rightarrow> contains_pc \<Rightarrow> (contains_pc, bool) step" where
  "Contains_step s (C65 v) =
     (case deref s (root s) of
        Inl e \<Rightarrow> Panic e
      | Inr r \<Rightarrow> Step s (C66 v (next r)))"
| "Contains_step s (C66 v nxt) =
     (if nxt = None then Step s (C69 v nxt)
      else case deref s nxt of
        Inl e \<Rightarrow> Panic e
      | Inr n \<Rightarrow> if marked n \<or> value n < v then Step s (C67 v nxt) else Step s (C69 v nxt))"
| "Contains_step s (C67 v nxt) =
     (case deref s nxt of
        Inl e \<Rightarrow> Panic e
      | Inr n \<Rightarrow> Step s (C66 v (next n)))"
| "Contains_step s (C69 v nxt) =
     (if nxt = None then Return False
      else case deref s nxt of
        Inl e \<Rightarrow> Panic e
      | Inr n \<Rightarrow> Return (value n = v))"

subsection \<open>Insert (lines 75 to 104)\<close>

text \<open>The arguments of a program point are \<^verbatim>\<open>value\<close>, \<^verbatim>\<open>pre\<close>, \<^verbatim>\<open>current\<close> and,
  from line 96 on, \<^verbatim>\<open>newNode\<close>. Line 91 reads three atomic fields, one per step.\<close>

datatype insert_pc =
    I77 int
  | I80 int ptr ptr
  | I81 int ptr ptr
  | I85 int ptr ptr
  | I89 int ptr ptr
  | I91 int ptr ptr
  | I91b int ptr ptr
  | I91c int ptr ptr
  | I92 int ptr ptr
  | I96 int ptr ptr
  | I98 int ptr ptr ptr
  | I100 int ptr ptr ptr
  | I101 int ptr ptr ptr
  | I102 int ptr ptr ptr
  | I103

fun Insert_step :: "state \<Rightarrow> insert_pc \<Rightarrow> (insert_pc, bool) step" where
  "Insert_step s (I77 v) =
     (case deref s (root s) of
        Inl e \<Rightarrow> Panic e
      | Inr r \<Rightarrow> Step s (I80 v (root s) (next r)))"
| "Insert_step s (I80 v pre current) =
     (if current = None then Step s (I85 v pre current)
      else case deref s current of
        Inl e \<Rightarrow> Panic e
      | Inr c \<Rightarrow> if value c < v then Step s (I81 v pre current) else Step s (I85 v pre current))"
| "Insert_step s (I81 v pre current) =
     (case deref s current of
        Inl e \<Rightarrow> Panic e
      | Inr c \<Rightarrow> Step s (I80 v current (next c)))"
| "Insert_step s (I85 v pre current) =
     (if current = None then Step s (I89 v pre current)
      else case deref s current of
        Inl e \<Rightarrow> Panic e
      | Inr c \<Rightarrow> if value c = v then Return False else Step s (I89 v pre current))"
| "Insert_step s (I89 v pre current) = Lock s pre (I91 v pre current)"
| "Insert_step s (I91 v pre current) =
     (case deref s pre of
        Inl e \<Rightarrow> Panic e
      | Inr p \<Rightarrow> if next p \<noteq> current then Step s (I92 v pre current)
                else Step s (I91b v pre current))"
| "Insert_step s (I91b v pre current) =
     (case deref s pre of
        Inl e \<Rightarrow> Panic e
      | Inr p \<Rightarrow> if marked p then Step s (I92 v pre current) else Step s (I91c v pre current))"
| "Insert_step s (I91c v pre current) =
     (if current = None then Step s (I96 v pre current)
      else case deref s current of
        Inl e \<Rightarrow> Panic e
      | Inr c \<Rightarrow> if marked c then Step s (I92 v pre current) else Step s (I96 v pre current))"
| "Insert_step s (I92 v pre current) = Unlock s pre (I77 v)"
| "Insert_step s (I96 v pre current) =
     (case alloc s (newIntNode v) of (s', a) \<Rightarrow> Step s' (I98 v pre current (Some a)))"
| "Insert_step s (I98 v pre current newNode) =
     (case deref s newNode of
        Inl e \<Rightarrow> Panic e
      | Inr n \<Rightarrow> Step (store s (the newNode) (updateNext n current)) (I100 v pre current newNode))"
| "Insert_step s (I100 v pre current newNode) =
     Step (sizeIncr s) (I101 v pre current newNode)"
| "Insert_step s (I101 v pre current newNode) =
     (case deref s pre of
        Inl e \<Rightarrow> Panic e
      | Inr p \<Rightarrow> Step (store s (the pre) (updateNext p newNode)) (I102 v pre current newNode))"
| "Insert_step s (I102 v pre current newNode) = Unlock s pre I103"
| "Insert_step s I103 = Return True"

subsection \<open>Delete (lines 106 to 143)\<close>

text \<open>The arguments are \<^verbatim>\<open>value\<close>, \<^verbatim>\<open>pre\<close> and \<^verbatim>\<open>current\<close>. Line 137 first loads
  \<^verbatim>\<open>current.next()\<close> (kept as a fourth argument), then stores it.\<close>

datatype delete_pc =
    D108 int
  | D111 int ptr ptr
  | D112 int ptr ptr
  | D116 int ptr ptr
  | D120 int ptr ptr
  | D122 int ptr ptr
  | D123 int ptr ptr
  | D127 int ptr ptr
  | D129 int ptr ptr
  | D129b int ptr ptr
  | D131 int ptr ptr
  | D132 int ptr ptr
  | D136 int ptr ptr
  | D137 int ptr ptr
  | D137b int ptr ptr ptr
  | D138 int ptr ptr
  | D140 int ptr ptr
  | D141 int ptr ptr
  | D142

fun Delete_step :: "state \<Rightarrow> delete_pc \<Rightarrow> (delete_pc, bool) step" where
  "Delete_step s (D108 v) =
     (case deref s (root s) of
        Inl e \<Rightarrow> Panic e
      | Inr r \<Rightarrow> Step s (D111 v (root s) (next r)))"
| "Delete_step s (D111 v pre current) =
     (if current = None then Step s (D116 v pre current)
      else case deref s current of
        Inl e \<Rightarrow> Panic e
      | Inr c \<Rightarrow> if marked c \<or> value c < v then Step s (D112 v pre current)
                else Step s (D116 v pre current))"
| "Delete_step s (D112 v pre current) =
     (case deref s current of
        Inl e \<Rightarrow> Panic e
      | Inr c \<Rightarrow> Step s (D111 v current (next c)))"
| "Delete_step s (D116 v pre current) =
     (if current = None then Return False
      else case deref s current of
        Inl e \<Rightarrow> Panic e
      | Inr c \<Rightarrow> if value c \<noteq> v then Return False else Step s (D120 v pre current))"
| "Delete_step s (D120 v pre current) = Lock s current (D122 v pre current)"
| "Delete_step s (D122 v pre current) =
     (case deref s current of
        Inl e \<Rightarrow> Panic e
      | Inr c \<Rightarrow> if marked c then Step s (D123 v pre current) else Step s (D127 v pre current))"
| "Delete_step s (D123 v pre current) = Unlock s current (D108 v)"
| "Delete_step s (D127 v pre current) = Lock s pre (D129 v pre current)"
| "Delete_step s (D129 v pre current) =
     (case deref s pre of
        Inl e \<Rightarrow> Panic e
      | Inr p \<Rightarrow> if next p \<noteq> current then Step s (D131 v pre current)
                else Step s (D129b v pre current))"
| "Delete_step s (D129b v pre current) =
     (case deref s pre of
        Inl e \<Rightarrow> Panic e
      | Inr p \<Rightarrow> if marked p then Step s (D131 v pre current) else Step s (D136 v pre current))"
| "Delete_step s (D131 v pre current) = Unlock s pre (D132 v pre current)"
| "Delete_step s (D132 v pre current) = Unlock s current (D108 v)"
| "Delete_step s (D136 v pre current) =
     (case deref s current of
        Inl e \<Rightarrow> Panic e
      | Inr c \<Rightarrow> Step (store s (the current) (mark c)) (D137 v pre current))"
| "Delete_step s (D137 v pre current) =
     (case deref s current of
        Inl e \<Rightarrow> Panic e
      | Inr c \<Rightarrow> Step s (D137b v pre current (next c)))"
| "Delete_step s (D137b v pre current nxt) =
     (case deref s pre of
        Inl e \<Rightarrow> Panic e
      | Inr p \<Rightarrow> Step (store s (the pre) (updateNext p nxt)) (D138 v pre current))"
| "Delete_step s (D138 v pre current) = Step (sizeDecr s) (D140 v pre current)"
| "Delete_step s (D140 v pre current) = Unlock s pre (D141 v pre current)"
| "Delete_step s (D141 v pre current) = Unlock s current D142"
| "Delete_step s D142 = Return True"

subsection \<open>Range (lines 145 to 151)\<close>

text \<open>
  The visitor is a Go closure: it is shown a value, may update what it has captured, may
  call the operations of the list, and says whether to go on. It is modelled by a function
  of the captured data, the value and the state of the list, which gives the answer, the
  captured data and the state the visitor leaves. A program point carries the captured
  data next to \<^verbatim>\<open>n\<close>; the call returns the captured data at the end. No lock is held
  across the call of the visitor, and \<^verbatim>\<open>n.next()\<close> is read after it (line 149).
\<close>

type_synonym 'a visitor = "'a \<Rightarrow> int \<Rightarrow> state \<Rightarrow> bool \<times> 'a \<times> state"

datatype 'a range_pc =
    R146 'a
  | R148 'a ptr
  | R149 'a ptr
  | R151 'a

fun Range_step :: "'a visitor \<Rightarrow> state \<Rightarrow> 'a range_pc \<Rightarrow> ('a range_pc, 'a) step"
  where
  "Range_step f s (R146 acc) =
     (case deref s (root s) of
        Inl e \<Rightarrow> Panic e
      | Inr r \<Rightarrow> Step s (R148 acc (next r)))"
| "Range_step f s (R148 acc n) =
     (if n = None then Step s (R151 acc)
      else case deref s n of
        Inl e \<Rightarrow> Panic e
      | Inr c \<Rightarrow> (case f acc (value c) s of
                   (go, acc', s') \<Rightarrow> if go then Step s' (R149 acc' n) else Step s' (R151 acc')))"
| "Range_step f s (R149 acc n) =
     (case deref s n of
        Inl e \<Rightarrow> Panic e
      | Inr c \<Rightarrow> Step s (R148 acc (next c)))"
| "Range_step f s (R151 acc) = Return acc"

subsection \<open>Running one call to its end\<close>

text \<open>
  A call that runs alone takes its steps one after the other. \<open>None\<close> is a call that
  never returns: it loops for ever, or waits for a mutex that nobody will release.
\<close>

partial_function (option) exec ::
  "(state \<Rightarrow> 'l \<Rightarrow> ('l, 'r) step) \<Rightarrow> state \<Rightarrow> 'l \<Rightarrow> (error + 'r \<times> state) option" where
  "exec stp s l =
     (case stp s l of
        Step s' l' \<Rightarrow> exec stp s' l'
      | Return r \<Rightarrow> Some (Inr (r, s))
      | Blocked \<Rightarrow> None
      | Panic e \<Rightarrow> Some (Inl e))"

declare exec.simps [code]

definition Contains :: "state \<Rightarrow> int \<Rightarrow> (error + bool \<times> state) option" where
  "Contains s v = exec Contains_step s (C65 v)"

definition Insert :: "state \<Rightarrow> int \<Rightarrow> (error + bool \<times> state) option" where
  "Insert s v = exec Insert_step s (I77 v)"

definition Delete :: "state \<Rightarrow> int \<Rightarrow> (error + bool \<times> state) option" where
  "Delete s v = exec Delete_step s (D108 v)"

definition Range :: "state \<Rightarrow> 'a visitor \<Rightarrow> 'a \<Rightarrow> (error + 'a \<times> state) option" where
  "Range s f acc = exec (Range_step f) s (R146 acc)"

section \<open>Call sequences and reachable states\<close>

text \<open>A visitor that leaves the list alone: a function of the captured data and the value
  it is shown.\<close>

definition quiet :: "('a \<Rightarrow> int \<Rightarrow> bool \<times> 'a) \<Rightarrow> 'a visitor" where
  "quiet g acc v s = (case g acc v of (go, acc') \<Rightarrow> (go, acc', s))"

text \<open>A visitor that records what it is shown and never stops the traversal.\<close>

definition collect :: "int list visitor" where
  "collect = quiet (\<lambda>acc v. (True, acc @ [v]))"


text \<open>What a call returned, when it returned.\<close>

definition result_of :: "(error + 'r \<times> state) option \<Rightarrow> 'r option" where
  "result_of x = (case x of Some (Inr (r, s)) \<Rightarrow> Some r | _ \<Rightarrow> None)"

text \<open>Mutating calls made one after the other, each run to its end before the next.\<close>

datatype call = InsertCall int | DeleteCall int

definition do_call :: "state \<Rightarrow> call \<Rightarrow> (error + bool \<times> state) option" where
  "do_call s c = (case c of InsertCall v \<Rightarrow> Insert s v | DeleteCall v \<Rightarrow> Delete s v)"

fun run_calls :: "state \<Rightarrow> call list \<Rightarrow> (error + bool list \<times> state) option" where
  "run_calls s [] = Some (Inr ([], s))"
| "run_calls s (c # cs) =
     (case do_call s c of
        None \<Rightarrow> None
      | Some (Inl e) \<Rightarrow> Some (Inl e)
      | Some (Inr (b, s')) \<Rightarrow>
          (case run_calls s' cs of
             None \<Rightarrow> None
           | Some (Inl e) \<Rightarrow> Some (Inl e)
           | Some (Inr (bs, s'')) \<Rightarrow> Some (Inr (b # bs, s''))))"

text \<open>The states a list can be in between calls: a new list, changed by completed calls.\<close>

inductive reachable :: "state \<Rightarrow> bool" where
  reachable_new: "reachable NewConcurrentIntList"
| reachable_call: "reachable s \<Longrightarrow> do_call s c = Some (Inr (b, s')) \<Longrightarrow> reachable s'"

section \<open>Chains of nodes\<close>

text \<open>\<open>path h p as q\<close>: following \<^verbatim>\<open>next\<close> from the pointer \<open>p\<close> in the heap \<open>h\<close> visits the
  nodes at the addresses \<open>as\<close>, in this order, and ends with the pointer \<open>q\<close>.\<close>

fun path :: "intNode list \<Rightarrow> ptr \<Rightarrow> addr list \<Rightarrow> ptr \<Rightarrow> bool" where
  "path h p [] q = (p = q)"
| "path h p (a # as) q = (p = Some a \<and> a < length h \<and> path h (next (h ! a)) as q)"

definition first_ptr :: "addr list \<Rightarrow> ptr" where
  "first_ptr as = (case as of [] \<Rightarrow> None | a # _ \<Rightarrow> Some a)"

definition vals :: "state \<Rightarrow> addr list \<Rightarrow> int list" where
  "vals s as = map (\<lambda>a. value (heap s ! a)) as"

text \<open>The list at rest: the sentinel \<open>r\<close> and the nodes \<open>as\<close> form the chain from the root to
  nil, none of them is marked or locked, the values ascend strictly and the counter
  agrees with the number of nodes.\<close>

definition quiescent :: "state \<Rightarrow> addr \<Rightarrow> addr list \<Rightarrow> bool" where
  "quiescent s r as \<longleftrightarrow>
     path (heap s) (root s) (r # as) None \<and>
     (\<forall>a \<in> set (r # as). \<not> marked (heap s ! a) \<and> \<not> mutex (heap s ! a)) \<and>
     sorted_wrt (<) (vals s as) \<and>
     size s = of_nat (length as)"

text \<open>What a traversal hands to its visitor, as the interface describes it: each value in
  turn, until the visitor says stop.\<close>

fun visit :: "('a \<Rightarrow> int \<Rightarrow> bool \<times> 'a) \<Rightarrow> 'a \<Rightarrow> int list \<Rightarrow> 'a" where
  "visit f acc [] = acc"
| "visit f acc (x # xs) = (case f acc x of (go, acc') \<Rightarrow> if go then visit f acc' xs else acc')"

text \<open>The nodes the searches pass over: Contains and Delete pass marked nodes and smaller
  values, Insert smaller values only.\<close>

definition skipped :: "state \<Rightarrow> int \<Rightarrow> addr \<Rightarrow> bool" where
  "skipped s v a = (marked (heap s ! a) \<or> value (heap s ! a) < v)"

definition below :: "state \<Rightarrow> int \<Rightarrow> addr \<Rightarrow> bool" where
  "below s v a = (value (heap s ! a) < v)"

text \<open>The state a successful Insert leaves, given where its search stopped, and the state a
  successful Delete leaves.\<close>

definition Insert_done :: "state \<Rightarrow> addr \<Rightarrow> ptr \<Rightarrow> int \<Rightarrow> state" where
  "Insert_done s pre cur v =
     s\<lparr>heap := (heap s @ [(newIntNode v)\<lparr>nextPtr := Some cur\<rparr>])
                 [pre := (heap s ! pre)\<lparr>nextPtr := Some (Some (length (heap s))), mutex := False\<rparr>],
       size := size s + 1\<rparr>"

definition Delete_done :: "state \<Rightarrow> addr \<Rightarrow> addr \<Rightarrow> state" where
  "Delete_done s pre c =
     s\<lparr>heap := (heap s)
                 [c := (heap s ! c)\<lparr>markedValue := Some True, mutex := False\<rparr>,
                  pre := (heap s ! pre)\<lparr>nextPtr := Some (next (heap s ! c)), mutex := False\<rparr>],
       size := size s - 1\<rparr>"

text \<open>A list at rest that holds exactly the values \<open>xs\<close>, in this order, behind a sentinel
  that stores \<open>-1\<close>.\<close>

definition rep :: "state \<Rightarrow> int list \<Rightarrow> bool" where
  "rep s xs \<longleftrightarrow> (\<exists>r as. quiescent s r as \<and> vals s as = xs \<and> value (heap s ! r) = - 1)"

text \<open>Adding a value to a strictly ascending list, at its place; nothing when it is there.\<close>

definition put :: "int \<Rightarrow> int list \<Rightarrow> int list" where
  "put v xs = (if v \<in> set xs then xs else takeWhile (\<lambda>x. x < v) xs @ v # dropWhile (\<lambda>x. x < v) xs)"

text \<open>A list caught while 3 is being deleted: its node is marked and still linked between
  the sentinel and the node of 5.\<close>

definition marked_but_linked :: state where
  "marked_but_linked =
     \<lparr>heap = [(newIntNode (- 1))\<lparr>nextPtr := Some (Some 1)\<rparr>,
              (newIntNode 3)\<lparr>nextPtr := Some (Some 2), markedValue := Some True\<rparr>,
              (newIntNode 5)\<lparr>nextPtr := Some None\<rparr>],
      root = Some 0, size = 1\<rparr>"

text \<open>The state after a sequence of calls on a new list.\<close>

definition state_after :: "call list \<Rightarrow> state" where
  "state_after cs =
     (case run_calls NewConcurrentIntList cs of
        Some (Inr (bs, s)) \<Rightarrow> s
      | _ \<Rightarrow> NewConcurrentIntList)"

text \<open>For a value, the Insert calls that returned true less the Delete calls that returned
  true; and the same count over all calls, whatever they returned.\<close>

fun net_true :: "call list \<Rightarrow> bool list \<Rightarrow> int \<Rightarrow> int" where
  "net_true (c # cs) (b # bs) v =
     (if b \<and> c = InsertCall v then 1 else if b \<and> c = DeleteCall v then - 1 else 0) +
     net_true cs bs v"
| "net_true cs bs v = 0"

fun net_calls :: "call list \<Rightarrow> int \<Rightarrow> int" where
  "net_calls [] v = 0"
| "net_calls (c # cs) v =
     (if c = InsertCall v then 1 else if c = DeleteCall v then - 1 else 0) + net_calls cs v"

text \<open>The same state with every mutex held, as if by other goroutines.\<close>

definition all_held :: "state \<Rightarrow> state" where
  "all_held s = s\<lparr>heap := map (\<lambda>n. n\<lparr>mutex := True\<rparr>) (heap s)\<rparr>"

text \<open>The value the sentinel stores, and the same state with another value there.\<close>

definition sentinel_value :: "state \<Rightarrow> int option" where
  "sentinel_value s = (case deref s (root s) of Inl e \<Rightarrow> None | Inr n \<Rightarrow> Some (value n))"

definition with_sentinel :: "int \<Rightarrow> state \<Rightarrow> state" where
  "with_sentinel x s =
     (case root s of
        None \<Rightarrow> s
      | Some r \<Rightarrow> s\<lparr>heap := (heap s)[r := (heap s ! r)\<lparr>value := x\<rparr>]\<rparr>)"

text \<open>The state a number of steps into a call, with the program point reached.\<close>

fun config_at :: "(state \<Rightarrow> 'l \<Rightarrow> ('l, 'r) step) \<Rightarrow> nat \<Rightarrow> state \<Rightarrow> 'l \<Rightarrow> (state \<times> 'l) option" where
  "config_at stp 0 s l = Some (s, l)"
| "config_at stp (Suc n) s l =
     (case stp s l of Step s' l' \<Rightarrow> config_at stp n s' l' | _ \<Rightarrow> None)"

text \<open>A node is linked when the chain from the root to nil passes through it.\<close>

definition linked :: "state \<Rightarrow> addr \<Rightarrow> bool" where
  "linked s a \<longleftrightarrow> (\<exists>as. path (heap s) (root s) as None \<and> a \<in> set as)"

text \<open>The chain in the middle of a call: \<open>ns\<close> are its nodes from the sentinel on, \<open>L\<close> the
  locked ones and \<open>M\<close> the marked ones.\<close>

definition shape :: "state \<Rightarrow> addr list \<Rightarrow> addr set \<Rightarrow> addr set \<Rightarrow> bool" where
  "shape s ns L M \<longleftrightarrow>
     ns \<noteq> [] \<and> path (heap s) (root s) ns None \<and>
     (\<forall>a \<in> set ns. (mutex (heap s ! a) \<longleftrightarrow> a \<in> L) \<and> (marked (heap s ! a) \<longleftrightarrow> a \<in> M))"

text \<open>The search stands between a node of the chain and its successor; and a node has been
  allocated, still unlinked, unlocked and unmarked.\<close>

definition between :: "state \<Rightarrow> addr list \<Rightarrow> ptr \<Rightarrow> ptr \<Rightarrow> bool" where
  "between s ns pre cur \<longleftrightarrow> (\<exists>p. pre = Some p \<and> p \<in> set ns \<and> next (heap s ! p) = cur)"

definition fresh :: "state \<Rightarrow> addr list \<Rightarrow> ptr \<Rightarrow> bool" where
  "fresh s ns new \<longleftrightarrow>
     (\<exists>a. new = Some a \<and> a < length (heap s) \<and> a \<notin> set ns \<and>
        \<not> mutex (heap s ! a) \<and> \<not> marked (heap s ! a))"

text \<open>What holds at each program point of an Insert that runs alone.\<close>

fun Insert_inv :: "addr list \<Rightarrow> state \<Rightarrow> insert_pc \<Rightarrow> bool" where
  "Insert_inv ns s (I77 v) = shape s ns {} {}"
| "Insert_inv ns s (I80 v pre cur) = (shape s ns {} {} \<and> between s ns pre cur)"
| "Insert_inv ns s (I81 v pre cur) = (shape s ns {} {} \<and> between s ns pre cur \<and> cur \<noteq> None)"
| "Insert_inv ns s (I85 v pre cur) = (shape s ns {} {} \<and> between s ns pre cur)"
| "Insert_inv ns s (I89 v pre cur) = (shape s ns {} {} \<and> between s ns pre cur)"
| "Insert_inv ns s (I91 v pre cur) = (shape s ns (set_option pre) {} \<and> between s ns pre cur)"
| "Insert_inv ns s (I91b v pre cur) = (shape s ns (set_option pre) {} \<and> between s ns pre cur)"
| "Insert_inv ns s (I91c v pre cur) = (shape s ns (set_option pre) {} \<and> between s ns pre cur)"
| "Insert_inv ns s (I92 v pre cur) = False"
| "Insert_inv ns s (I96 v pre cur) = (shape s ns (set_option pre) {} \<and> between s ns pre cur)"
| "Insert_inv ns s (I98 v pre cur new) =
     (shape s ns (set_option pre) {} \<and> between s ns pre cur \<and> fresh s ns new)"
| "Insert_inv ns s (I100 v pre cur new) =
     (shape s ns (set_option pre) {} \<and> between s ns pre cur \<and> fresh s ns new \<and>
      (\<exists>a. new = Some a \<and> next (heap s ! a) = cur))"
| "Insert_inv ns s (I101 v pre cur new) =
     (shape s ns (set_option pre) {} \<and> between s ns pre cur \<and> fresh s ns new \<and>
      (\<exists>a. new = Some a \<and> next (heap s ! a) = cur))"
| "Insert_inv ns s (I102 v pre cur new) =
     (shape s ns (set_option pre) {} \<and> (\<exists>p. pre = Some p \<and> p \<in> set ns))"
| "Insert_inv ns s I103 = shape s ns {} {}"

text \<open>No node's mark is cleared between two states, and no node is lost.\<close>

definition keeps_marks :: "state \<Rightarrow> state \<Rightarrow> bool" where
  "keeps_marks s s' \<longleftrightarrow>
     length (heap s) \<le> length (heap s') \<and>
     (\<forall>a < length (heap s). marked (heap s ! a) \<longrightarrow> marked (heap s' ! a))"

text \<open>The deleted node after it was unlinked: marked, still locked, and off the chain. Then
  what holds at each program point of a Delete that runs alone.\<close>

definition gone :: "state \<Rightarrow> addr list \<Rightarrow> ptr \<Rightarrow> bool" where
  "gone s ns cur \<longleftrightarrow>
     (\<exists>c. cur = Some c \<and> c < length (heap s) \<and> c \<notin> set ns \<and>
        mutex (heap s ! c) \<and> marked (heap s ! c))"

fun Delete_inv :: "addr list \<Rightarrow> state \<Rightarrow> delete_pc \<Rightarrow> bool" where
  "Delete_inv ns s (D108 v) = shape s ns {} {}"
| "Delete_inv ns s (D111 v pre cur) = (shape s ns {} {} \<and> between s ns pre cur)"
| "Delete_inv ns s (D112 v pre cur) = (shape s ns {} {} \<and> between s ns pre cur \<and> cur \<noteq> None)"
| "Delete_inv ns s (D116 v pre cur) = (shape s ns {} {} \<and> between s ns pre cur)"
| "Delete_inv ns s (D120 v pre cur) = (shape s ns {} {} \<and> between s ns pre cur \<and> cur \<noteq> None)"
| "Delete_inv ns s (D122 v pre cur) =
     (shape s ns (set_option cur) {} \<and> between s ns pre cur \<and> cur \<noteq> None)"
| "Delete_inv ns s (D123 v pre cur) = False"
| "Delete_inv ns s (D127 v pre cur) =
     (shape s ns (set_option cur) {} \<and> between s ns pre cur \<and> cur \<noteq> None)"
| "Delete_inv ns s (D129 v pre cur) =
     (shape s ns (set_option cur \<union> set_option pre) {} \<and> between s ns pre cur \<and> cur \<noteq> None)"
| "Delete_inv ns s (D129b v pre cur) =
     (shape s ns (set_option cur \<union> set_option pre) {} \<and> between s ns pre cur \<and> cur \<noteq> None)"
| "Delete_inv ns s (D131 v pre cur) = False"
| "Delete_inv ns s (D132 v pre cur) = False"
| "Delete_inv ns s (D136 v pre cur) =
     (shape s ns (set_option cur \<union> set_option pre) {} \<and> between s ns pre cur \<and> cur \<noteq> None)"
| "Delete_inv ns s (D137 v pre cur) =
     (shape s ns (set_option cur \<union> set_option pre) (set_option cur) \<and> between s ns pre cur \<and>
      cur \<noteq> None)"
| "Delete_inv ns s (D137b v pre cur nxt) =
     (shape s ns (set_option cur \<union> set_option pre) (set_option cur) \<and> between s ns pre cur \<and>
      (\<exists>c. cur = Some c \<and> nxt = next (heap s ! c)))"
| "Delete_inv ns s (D138 v pre cur) =
     (shape s ns (set_option pre) {} \<and> (\<exists>p. pre = Some p \<and> p \<in> set ns) \<and> gone s ns cur)"
| "Delete_inv ns s (D140 v pre cur) =
     (shape s ns (set_option pre) {} \<and> (\<exists>p. pre = Some p \<and> p \<in> set ns) \<and> gone s ns cur)"
| "Delete_inv ns s (D141 v pre cur) = (shape s ns {} {} \<and> gone s ns cur)"
| "Delete_inv ns s D142 = shape s ns {} {}"



text \<open>The state a number of steps into a call.\<close>

definition state_at :: "(state \<Rightarrow> 'l \<Rightarrow> ('l, 'r) step) \<Rightarrow> nat \<Rightarrow> state \<Rightarrow> 'l \<Rightarrow> state" where
  "state_at stp n s l = (case config_at stp n s l of Some (s', l') \<Rightarrow> s' | None \<Rightarrow> s)"

text \<open>What a call does to the set of values, and what the calls of a sequence return, by the
  interface alone: Insert adds its value and returns true when it was absent, Delete takes
  its value away and returns true when it was present.\<close>

fun apply_call :: "call \<Rightarrow> int set \<Rightarrow> int set" where
  "apply_call (InsertCall v) A = insert v A"
| "apply_call (DeleteCall v) A = A - {v}"

fun expects :: "call list \<Rightarrow> int set \<Rightarrow> bool list" where
  "expects [] A = []"
| "expects (InsertCall v # cs) A = (v \<notin> A) # expects cs (insert v A)"
| "expects (DeleteCall v # cs) A = (v \<in> A) # expects cs (A - {v})"

text \<open>The list serves a value as a set with the elements \<open>xs\<close> does: a traversal shows \<open>xs\<close>,
  Contains tells whether the value is among them, Insert returns true exactly when it is
  not and leaves it in its place, Delete returns true exactly when it is and leaves the
  others.\<close>

definition serves :: "state \<Rightarrow> int list \<Rightarrow> int \<Rightarrow> bool" where
  "serves s xs v \<longleftrightarrow>
     Range s collect [] = Some (Inr (xs, s)) \<and>
     Contains s v = Some (Inr (v \<in> set xs, s)) \<and>
     (\<exists>s1. Insert s v = Some (Inr (v \<notin> set xs, s1)) \<and> Contains s1 v = Some (Inr (True, s1)) \<and>
        Range s1 collect [] = Some (Inr (put v xs, s1))) \<and>
     (\<exists>s2. Delete s v = Some (Inr (v \<in> set xs, s2)) \<and> Contains s2 v = Some (Inr (False, s2)) \<and>
        Range s2 collect [] = Some (Inr (remove1 v xs, s2)))"


























section \<open>Running the machines\<close>

lemma exec_Step: "stp s l = Step s' l' \<Longrightarrow> exec stp s l = exec stp s' l'"
  by (subst exec.simps) simp

lemma exec_Return: "stp s l = Return r \<Longrightarrow> exec stp s l = Some (Inr (r, s))"
  by (subst exec.simps) simp

lemma deref_Some: "a < length (heap s) \<Longrightarrow> deref s (Some a) = Inr (heap s ! a)"
  by (simp add: deref_def)

lemma path_append: "path h p (as @ bs) q = (\<exists>m. path h p as m \<and> path h m bs q)"
  by (induction as arbitrary: p) auto

lemma path_snoc: "path h p (as @ [a]) q = (path h p as (Some a) \<and> a < length h \<and> next (h ! a) = q)"
  by (auto simp: path_append)

lemma path_valid: "path h p as q \<Longrightarrow> a \<in> set as \<Longrightarrow> a < length h"
  by (induction as arbitrary: p) auto

lemma path_update_other: "a \<notin> set as \<Longrightarrow> path (h[a := n]) p as q = path h p as q"
  by (induction as arbitrary: p) auto

lemma path_update_next:
  "a < length h \<Longrightarrow> next n = next (h ! a) \<Longrightarrow> path (h[a := n]) p as q = path h p as q"
  by (induction as arbitrary: p) (auto simp: nth_list_update)

lemma path_grow: "path h p as q \<Longrightarrow> path (h @ [n]) p as q"
  by (induction as arbitrary: p) (auto simp: nth_append)

lemma path_first: "path h p as None \<Longrightarrow> p = first_ptr as"
  by (cases as) (auto simp: first_ptr_def)

lemma path_unique: "path h p as None \<Longrightarrow> path h p bs None \<Longrightarrow> as = bs"
proof (induction as arbitrary: p bs)
  case Nil
  then show ?case by (cases bs) auto
next
  case (Cons a as)
  then show ?case by (cases bs) auto
qed

lemma path_head_notin_tail:
  assumes "path h (Some a) (a # as) None"
  shows "a \<notin> set as"
proof
  assume "a \<in> set as"
  then obtain xs ys where as: "as = xs @ a # ys"
    by (auto simp: in_set_conv_decomp)
  with assms have "path h (Some a) (a # ys) None"
    by (auto simp: path_append)
  with assms have "a # as = a # ys"
    by (rule path_unique)
  with as show False by simp
qed

lemma path_distinct: "path h p as None \<Longrightarrow> distinct as"
proof (induction as arbitrary: p)
  case Nil
  then show ?case by simp
next
  case (Cons a as)
  then have "path h (Some a) (a # as) None" by simp
  then have "a \<notin> set as" by (rule path_head_notin_tail)
  with Cons show ?case by auto
qed

text \<open>Splicing a fresh node in after \<open>p\<close>, and cutting the node after \<open>p\<close> out.\<close>

lemma path_splice_in:
  assumes p: "path h q (xs @ p # ys) None"
    and n: "next n = first_ptr ys" and p': "next p' = Some (length h)"
  shows "path ((h @ [n])[p := p']) q (xs @ p # length h # ys) None"
proof -
  from p have d: "distinct (xs @ p # ys)" by (rule path_distinct)
  from p have v: "\<And>a. a \<in> set (xs @ p # ys) \<Longrightarrow> a < length h" by (rule path_valid)
  from p obtain m where 1: "path h q xs (Some p)" and 2: "path h m ys None" "p < length h"
    by (auto simp: path_append)
  from 2 have m: "m = first_ptr ys" by (simp add: path_first)
  let ?h = "(h @ [n])[p := p']"
  from 1 d have a: "path ?h q xs (Some p)"
    by (simp add: path_update_other path_grow)
  from 2 d have b: "path ?h m ys None"
    by (simp add: path_update_other path_grow)
  have lp: "length h \<noteq> p" using 2 by simp
  show ?thesis
    using a b 2 m n p' lp by (simp add: path_append nth_append)
qed

lemma path_cut_out:
  assumes p: "path h q (xs @ p # c # ys) None"
    and p': "next p' = next (h ! c)"
  shows "path (h[c := c', p := p']) q (xs @ p # ys) None"
proof -
  from p have d: "distinct (xs @ p # c # ys)" by (rule path_distinct)
  from p have 1: "path h q xs (Some p)" and 2: "path h (next (h ! c)) ys None"
      "p < length h" "c < length h"
    by (auto simp: path_append)
  let ?h = "h[c := c', p := p']"
  from 1 d have a: "path ?h q xs (Some p)"
    by (simp add: path_update_other)
  from 2 d have b: "path ?h (next (h ! c)) ys None"
    by (simp add: path_update_other)
  show ?thesis
    using a b 2 p' by (simp add: path_append)
qed

subsection \<open>The loops\<close>

lemma Contains_loop:
  "path (heap s) p as None \<Longrightarrow>
   exec Contains_step s (C66 v p) =
   exec Contains_step s (C69 v (first_ptr (dropWhile (skipped s v) as)))"
proof (induction as arbitrary: p)
  case Nil
  then show ?case by (simp add: first_ptr_def exec_Step)
next
  case (Cons a as)
  then show ?case
    by (simp add: first_ptr_def exec_Step deref_Some skipped_def)
qed

lemma Range_loop:
  "path (heap s) p as None \<Longrightarrow>
   exec (Range_step (quiet f)) s (R148 acc p) = Some (Inr (visit f acc (vals s as), s))"
proof (induction as arbitrary: p acc)
  case Nil
  then show ?case by (simp add: vals_def exec_Step exec_Return)
next
  case (Cons a as)
  then show ?case
    by (cases "f acc (value (heap s ! a))")
      (simp add: vals_def exec_Step exec_Return deref_Some quiet_def)
qed

lemma Insert_search:
  "path (heap s) p as None \<Longrightarrow>
   exec Insert_step s (I80 v (Some pre) p) =
   exec Insert_step s (I85 v (Some (last (pre # takeWhile (below s v) as)))
      (first_ptr (dropWhile (below s v) as)))"
proof (induction as arbitrary: p pre)
  case Nil
  then show ?case by (simp add: first_ptr_def exec_Step)
next
  case (Cons a as)
  then show ?case
    by (simp add: first_ptr_def exec_Step deref_Some below_def)
qed

lemma Delete_search:
  "path (heap s) p as None \<Longrightarrow>
   exec Delete_step s (D111 v (Some pre) p) =
   exec Delete_step s (D116 v (Some (last (pre # takeWhile (skipped s v) as)))
      (first_ptr (dropWhile (skipped s v) as)))"
proof (induction as arbitrary: p pre)
  case Nil
  then show ?case by (simp add: first_ptr_def exec_Step)
next
  case (Cons a as)
  then show ?case
    by (simp add: first_ptr_def exec_Step deref_Some skipped_def)
qed

subsection \<open>The commits\<close>

lemma Insert_commit:
  assumes "pre < length (heap s)" "\<not> mutex (heap s ! pre)" "next (heap s ! pre) = cur"
    "\<not> marked (heap s ! pre)"
    "cur = None \<or> (\<exists>c. cur = Some c \<and> c < length (heap s) \<and> \<not> marked (heap s ! c) \<and>
        value (heap s ! c) \<noteq> v \<and> c \<noteq> pre)"
  shows "exec Insert_step s (I85 v (Some pre) cur) = Some (Inr (True, Insert_done s pre cur v))"
  using assms
  by (auto simp add: exec_Step exec_Return deref_def Lock_def Unlock_def store_def
      alloc_def sizeIncr_def updateNext_def Insert_done_def next_def marked_def nth_append
      list_eq_iff_nth_eq nth_list_update)

lemma Delete_commit:
  assumes "pre < length (heap s)" "\<not> mutex (heap s ! pre)" "next (heap s ! pre) = Some c"
    "\<not> marked (heap s ! pre)" "c < length (heap s)" "\<not> marked (heap s ! c)"
    "\<not> mutex (heap s ! c)" "value (heap s ! c) = v" "c \<noteq> pre"
  shows "exec Delete_step s (D116 v (Some pre) (Some c)) = Some (Inr (True, Delete_done s pre c))"
  using assms
  by (auto simp add: exec_Step exec_Return deref_def Lock_def Unlock_def store_def
      sizeDecr_def updateNext_def mark_def Delete_done_def next_def marked_def
      list_eq_iff_nth_eq nth_list_update)

subsection \<open>Strictly ascending lists\<close>

lemma ascending_hd_dropWhile:
  fixes xs :: "int list"
  assumes "sorted_wrt (<) xs"
  shows "v \<in> set xs \<longleftrightarrow> (dropWhile (\<lambda>x. x < v) xs \<noteq> [] \<and> hd (dropWhile (\<lambda>x. x < v) xs) = v)"
  using assms
proof (induction xs)
  case Nil
  then show ?case by simp
next
  case (Cons x xs)
  then show ?case by auto
qed

lemma ascending_insert:
  fixes xs :: "int list"
  assumes "sorted_wrt (<) xs" "v \<notin> set xs"
  shows "sorted_wrt (<) (takeWhile (\<lambda>x. x < v) xs @ v # dropWhile (\<lambda>x. x < v) xs)"
  using assms
proof (induction xs)
  case Nil
  then show ?case by simp
next
  case (Cons x xs)
  then show ?case by (auto dest: set_takeWhileD set_dropWhileD)
qed

lemma ascending_delete:
  fixes xs :: "int list"
  assumes "sorted_wrt (<) xs" "v \<in> set xs"
  shows "takeWhile (\<lambda>x. x < v) xs @ tl (dropWhile (\<lambda>x. x < v) xs) = remove1 v xs"
  using assms
proof (induction xs)
  case Nil
  then show ?case by simp
next
  case (Cons x xs)
  then show ?case by auto
qed

lemma ascending_remove1:
  fixes xs :: "int list"
  shows "sorted_wrt (<) xs \<Longrightarrow> sorted_wrt (<) (remove1 v xs)"
  by (induction xs) (auto dest: notin_set_remove1)

lemma ascending_distinct:
  fixes xs :: "int list"
  shows "sorted_wrt (<) xs \<Longrightarrow> distinct xs"
  by (induction xs) auto

lemma vals_takeWhile: "vals s (takeWhile (below s v) as) = takeWhile (\<lambda>x. x < v) (vals s as)"
  by (induction as) (auto simp: vals_def below_def)

lemma vals_dropWhile: "vals s (dropWhile (below s v) as) = dropWhile (\<lambda>x. x < v) (vals s as)"
  by (induction as) (auto simp: vals_def below_def)

lemma skipped_below:
  "\<forall>a \<in> set as. \<not> marked (heap s ! a) \<Longrightarrow>
   takeWhile (skipped s v) as = takeWhile (below s v) as \<and>
   dropWhile (skipped s v) as = dropWhile (below s v) as"
  by (induction as) (auto simp: skipped_def below_def)

lemma quiescent_root:
  assumes "quiescent s r as"
  shows "root s = Some r" "r < length (heap s)" "path (heap s) (next (heap s ! r)) as None"
  using assms by (auto simp: quiescent_def)

lemma quiescent_node:
  assumes "quiescent s r as" "a \<in> set (r # as)"
  shows "a < length (heap s)" "\<not> marked (heap s ! a)" "\<not> mutex (heap s ! a)"
proof -
  from assms(1) have "path (heap s) (root s) (r # as) None"
    by (simp add: quiescent_def)
  then show "a < length (heap s)" using assms(2) by (rule path_valid)
  from assms show "\<not> marked (heap s ! a)" "\<not> mutex (heap s ! a)"
    by (auto simp: quiescent_def)
qed

text \<open>Where the searches of Insert and Delete stop in a list at rest.\<close>

lemma quiescent_split:
  fixes v :: int
  assumes q: "quiescent s r as"
  defines "lo \<equiv> takeWhile (below s v) as" and "hi \<equiv> dropWhile (below s v) as"
  defines "pre \<equiv> last (r # lo)"
  shows "path (heap s) (root s) (butlast (r # lo) @ pre # hi) None"
    and "butlast (r # lo) @ [pre] = r # lo"
    and "next (heap s ! pre) = first_ptr hi"
    and "pre \<in> set (r # as)"
    and "set hi \<subseteq> set as"
    and "pre \<notin> set hi"
proof -
  have as: "as = lo @ hi" by (simp add: lo_def hi_def)
  show bl: "butlast (r # lo) @ [pre] = r # lo"
    unfolding pre_def by (rule append_butlast_last_id) simp
  from q have p: "path (heap s) (root s) ((r # lo) @ hi) None"
    by (simp add: quiescent_def as)
  have "(r # lo) @ hi = butlast (r # lo) @ pre # hi"
    using bl by (metis append_Cons append_Nil append_assoc)
  with p show p': "path (heap s) (root s) (butlast (r # lo) @ pre # hi) None"
    by (simp only:)
  then obtain m where "path (heap s) (root s) (butlast (r # lo) @ [pre]) m"
      and m: "path (heap s) m hi None"
    by (auto simp: path_append)
  then have "next (heap s ! pre) = m" by (simp only: path_snoc)
  with m show "next (heap s ! pre) = first_ptr hi" by (simp add: path_first)
  have "pre \<in> set (r # lo)" unfolding pre_def by (rule last_in_set) simp
  then show "pre \<in> set (r # as)" by (auto simp: as)
  show "set hi \<subseteq> set as" by (auto simp: as)
  from p' have "distinct (butlast (r # lo) @ pre # hi)" by (rule path_distinct)
  then show "pre \<notin> set hi" by auto
qed

lemma Contains_quiescent:
  assumes q: "quiescent s r as"
  shows "Contains s v = Some (Inr (v \<in> set (vals s as), s))"
proof -
  define hi where "hi = dropWhile (below s v) as"
  from q have un: "\<forall>a \<in> set as. \<not> marked (heap s ! a)" by (simp add: quiescent_def)
  from q have asc: "sorted_wrt (<) (vals s as)" by (simp add: quiescent_def)
  have "v \<in> set (vals s as) \<longleftrightarrow> (vals s hi \<noteq> [] \<and> hd (vals s hi) = v)"
    unfolding hi_def using ascending_hd_dropWhile [OF asc, of v] by (simp only: vals_dropWhile)
  also have "\<dots> \<longleftrightarrow> (hi \<noteq> [] \<and> value (heap s ! hd hi) = v)"
    by (cases hi) (simp_all add: vals_def)
  finally have mem: "v \<in> set (vals s as) \<longleftrightarrow> (hi \<noteq> [] \<and> value (heap s ! hd hi) = v)" .
  have valid: "a \<in> set hi \<Longrightarrow> a < length (heap s)" for a
    unfolding hi_def using quiescent_node(1) [OF q, of a] by (auto dest: set_dropWhileD)
  have "Contains s v = exec Contains_step s (C66 v (next (heap s ! r)))"
    using quiescent_root [OF q] by (simp add: Contains_def exec_Step deref_Some)
  also have "\<dots> = exec Contains_step s (C69 v (first_ptr hi))"
    unfolding hi_def
    using quiescent_root(3) [OF q] skipped_below [OF un, of v] by (simp add: Contains_loop)
  also have "\<dots> = Some (Inr (v \<in> set (vals s as), s))"
  proof (cases hi)
    case Nil
    then show ?thesis using mem by (simp add: first_ptr_def exec_Return)
  next
    case (Cons c cs)
    with valid [of c] have "c < length (heap s)" by simp
    with Cons show ?thesis using mem by (simp add: first_ptr_def exec_Return deref_Some)
  qed
  finally show ?thesis .
qed

lemma Range_quiescent:
  assumes q: "quiescent s r as"
  shows "Range s (quiet f) acc = Some (Inr (visit f acc (vals s as), s))"
  using quiescent_root [OF q] by (simp add: Range_def exec_Step deref_Some Range_loop)

lemma Insert_start:
  assumes q: "quiescent s r as"
  shows "Insert s v =
     exec Insert_step s (I85 v (Some (last (r # takeWhile (below s v) as)))
       (first_ptr (dropWhile (below s v) as)))"
  using quiescent_root [OF q] by (simp add: Insert_def exec_Step deref_Some Insert_search)

lemma Delete_start:
  assumes q: "quiescent s r as"
  shows "Delete s v =
     exec Delete_step s (D116 v (Some (last (r # takeWhile (below s v) as)))
       (first_ptr (dropWhile (below s v) as)))"
proof -
  from q have un: "\<forall>a \<in> set as. \<not> marked (heap s ! a)" by (simp add: quiescent_def)
  show ?thesis
    using quiescent_root [OF q] skipped_below [OF un, of v]
    by (simp add: Delete_def exec_Step deref_Some Delete_search)
qed

lemma Insert_done_old:
  assumes "x < length (heap s)"
  shows "value (heap (Insert_done s p c v) ! x) = value (heap s ! x)"
    and "marked (heap (Insert_done s p c v) ! x) = marked (heap s ! x)"
    and "mutex (heap (Insert_done s p c v) ! x) = (x \<noteq> p \<and> mutex (heap s ! x))"
  using assms by (cases "x = p"; simp add: Insert_done_def nth_append marked_def)+

lemma Insert_done_new:
  assumes "p < length (heap s)"
  shows "heap (Insert_done s p c v) ! length (heap s) = (newIntNode v)\<lparr>nextPtr := Some c\<rparr>"
  using assms by (simp add: Insert_done_def nth_list_update nth_append)

lemma Insert_done_path:
  assumes "path (heap s) q (xs @ p # ys) None" "c = first_ptr ys"
  shows "path (heap (Insert_done s p c v)) q (xs @ p # length (heap s) # ys) None"
  unfolding Insert_done_def using assms by (simp add: path_splice_in next_def)

lemma Delete_done_old:
  assumes "x < length (heap s)"
  shows "value (heap (Delete_done s p c) ! x) = value (heap s ! x)"
    and "x \<noteq> c \<Longrightarrow> marked (heap (Delete_done s p c) ! x) = marked (heap s ! x)"
    and "mutex (heap (Delete_done s p c) ! x) = (x \<noteq> p \<and> x \<noteq> c \<and> mutex (heap s ! x))"
  using assms by (cases "x = p"; cases "x = c"; simp add: Delete_done_def marked_def)+

lemma Delete_done_path:
  assumes "path (heap s) q (xs @ p # c # ys) None"
  shows "path (heap (Delete_done s p c)) q (xs @ p # ys) None"
  unfolding Delete_done_def using assms by (simp add: path_cut_out next_def)

lemma vals_cong: "(\<And>a. a \<in> set as \<Longrightarrow> value (heap s' ! a) = value (heap s ! a)) \<Longrightarrow> vals s' as = vals s as"
  by (simp add: vals_def)

lemma Insert_quiescent_present:
  assumes q: "quiescent s r as" and v: "v \<in> set (vals s as)"
  shows "Insert s v = Some (Inr (False, s))"
proof -
  define hi where "hi = dropWhile (below s v) as"
  from q have asc: "sorted_wrt (<) (vals s as)" by (simp add: quiescent_def)
  have "vals s hi \<noteq> [] \<and> hd (vals s hi) = v"
    unfolding hi_def using ascending_hd_dropWhile [OF asc, of v] v by (simp only: vals_dropWhile)
  then obtain c cs where hi: "hi = c # cs" and c: "value (heap s ! c) = v"
    by (cases hi) (auto simp: vals_def)
  then have "c \<in> set as" unfolding hi_def by (metis list.set_intros(1) set_dropWhileD)
  then have "c < length (heap s)" using quiescent_node(1) [OF q, of c] by simp
  then show ?thesis
    using hi c unfolding Insert_start [OF q] hi_def [symmetric]
    by (simp add: first_ptr_def exec_Return deref_Some)
qed

lemma Insert_quiescent_absent:
  assumes q: "quiescent s r as" and v: "v \<notin> set (vals s as)"
  defines "lo \<equiv> takeWhile (below s v) as" and "hi \<equiv> dropWhile (below s v) as"
  defines "s' \<equiv> Insert_done s (last (r # lo)) (first_ptr hi) v"
  shows "Insert s v = Some (Inr (True, s'))"
    and "quiescent s' r (lo @ length (heap s) # hi)"
    and "vals s' (lo @ length (heap s) # hi) =
         takeWhile (\<lambda>x. x < v) (vals s as) @ v # dropWhile (\<lambda>x. x < v) (vals s as)"
    and "value (heap s' ! r) = value (heap s ! r)"
proof -
  define pre where "pre = last (r # lo)"
  define a where "a = length (heap s)"
  note sp = quiescent_split [OF q, of v, folded lo_def hi_def, folded pre_def]
  note pn = quiescent_node [OF q sp(4)]
  from q have asc: "sorted_wrt (<) (vals s as)" by (simp add: quiescent_def)
  have as: "as = lo @ hi" by (simp add: lo_def hi_def)
  have old: "x \<in> set (r # as) \<Longrightarrow> x < length (heap s)" for x
    using quiescent_node(1) [OF q] by blast
  have "\<not> (vals s hi \<noteq> [] \<and> hd (vals s hi) = v)"
    unfolding hi_def vals_dropWhile using ascending_hd_dropWhile [OF asc, of v] v by blast
  then have hd: "hi = [] \<or> value (heap s ! hd hi) \<noteq> v"
    by (cases hi) (auto simp: vals_def)
  have cur: "first_ptr hi = None \<or>
      (\<exists>c. first_ptr hi = Some c \<and> c < length (heap s) \<and> \<not> marked (heap s ! c) \<and>
        value (heap s ! c) \<noteq> v \<and> c \<noteq> pre)"
  proof (cases hi)
    case Nil
    then show ?thesis by (simp add: first_ptr_def)
  next
    case (Cons c cs)
    then have "c \<in> set as" using sp(5) by auto
    then have "c < length (heap s)" "\<not> marked (heap s ! c)"
      using quiescent_node [OF q, of c] by simp_all
    moreover have "c \<noteq> pre" using sp(6) Cons by auto
    ultimately show ?thesis using Cons hd by (simp add: first_ptr_def)
  qed
  show "Insert s v = Some (Inr (True, s'))"
    unfolding Insert_start [OF q] s'_def lo_def [symmetric] hi_def [symmetric] pre_def [symmetric]
    using pn(1) pn(3) sp(3) pn(2) cur by (rule Insert_commit)
  have path': "path (heap s') (root s') (butlast (r # lo) @ pre # a # hi) None"
    unfolding s'_def a_def pre_def [symmetric]
    using Insert_done_path [OF sp(1) refl] by (simp add: Insert_done_def)
  have "butlast (r # lo) @ pre # a # hi = r # lo @ a # hi"
    using sp(2) by (metis append_Cons append_Nil append_assoc)
  with path' have path: "path (heap s') (root s') (r # lo @ a # hi) None"
    by (simp only:)
  have new: "heap s' ! a = (newIntNode v)\<lparr>nextPtr := Some (first_ptr hi)\<rparr>"
    unfolding s'_def a_def pre_def [symmetric] using pn(1) by (rule Insert_done_new)
  have val: "value (heap s' ! x) = value (heap s ! x)"
    and mk: "marked (heap s' ! x) = marked (heap s ! x)"
    and mu: "mutex (heap s' ! x) = (x \<noteq> pre \<and> mutex (heap s ! x))"
    if "x \<in> set (r # as)" for x
    unfolding s'_def pre_def [symmetric] using old [OF that] by (rule Insert_done_old)+
  show "value (heap s' ! r) = value (heap s ! r)" by (rule val) simp
  have "vals s' lo = vals s lo" "vals s' hi = vals s hi"
    using val by (auto intro!: vals_cong simp: as)
  moreover have "value (heap s' ! a) = v"
    using new by (simp add: newIntNode_def)
  ultimately have "vals s' (lo @ a # hi) = vals s lo @ v # vals s hi"
    by (simp add: vals_def)
  then show vs: "vals s' (lo @ length (heap s) # hi) =
         takeWhile (\<lambda>x. x < v) (vals s as) @ v # dropWhile (\<lambda>x. x < v) (vals s as)"
    unfolding a_def lo_def hi_def by (simp only: vals_takeWhile vals_dropWhile)
  have clean: "\<forall>x \<in> set (r # lo @ a # hi). \<not> marked (heap s' ! x) \<and> \<not> mutex (heap s' ! x)"
  proof
    fix x assume "x \<in> set (r # lo @ a # hi)"
    then consider "x = a" | "x \<in> set (r # as)" by (auto simp: as)
    then show "\<not> marked (heap s' ! x) \<and> \<not> mutex (heap s' ! x)"
    proof cases
      case 1
      then show ?thesis using new by (simp add: newIntNode_def marked_def)
    next
      case 2
      then show ?thesis using mk mu quiescent_node(2,3) [OF q 2] by simp
    qed
  qed
  have sz: "size s' = of_nat (length (lo @ a # hi))"
    using q by (simp add: s'_def Insert_done_def quiescent_def as)
  show "quiescent s' r (lo @ length (heap s) # hi)"
    unfolding quiescent_def a_def [symmetric]
    using path clean sz ascending_insert [OF asc v] vs [folded a_def] by simp
qed

lemma Delete_quiescent_absent:
  assumes q: "quiescent s r as" and v: "v \<notin> set (vals s as)"
  shows "Delete s v = Some (Inr (False, s))"
proof -
  define hi where "hi = dropWhile (below s v) as"
  from q have asc: "sorted_wrt (<) (vals s as)" by (simp add: quiescent_def)
  have "\<not> (vals s hi \<noteq> [] \<and> hd (vals s hi) = v)"
    unfolding hi_def vals_dropWhile using ascending_hd_dropWhile [OF asc, of v] v by blast
  then have hd: "hi = [] \<or> value (heap s ! hd hi) \<noteq> v"
    by (cases hi) (auto simp: vals_def)
  show ?thesis
  proof (cases hi)
    case Nil
    then show ?thesis
      unfolding Delete_start [OF q] hi_def [symmetric]
      by (simp add: first_ptr_def exec_Return)
  next
    case (Cons c cs)
    then have "c \<in> set as" unfolding hi_def by (metis list.set_intros(1) set_dropWhileD)
    then have "c < length (heap s)" using quiescent_node(1) [OF q, of c] by simp
    then show ?thesis
      using Cons hd unfolding Delete_start [OF q] hi_def [symmetric]
      by (simp add: first_ptr_def exec_Return deref_Some)
  qed
qed

lemma Delete_quiescent_present:
  assumes q: "quiescent s r as" and v: "v \<in> set (vals s as)"
  defines "lo \<equiv> takeWhile (below s v) as" and "hi \<equiv> dropWhile (below s v) as"
  defines "s' \<equiv> Delete_done s (last (r # lo)) (hd hi)"
  shows "Delete s v = Some (Inr (True, s'))"
    and "quiescent s' r (lo @ tl hi)"
    and "vals s' (lo @ tl hi) = remove1 v (vals s as)"
    and "value (heap s' ! r) = value (heap s ! r)"
proof -
  define pre where "pre = last (r # lo)"
  note sp = quiescent_split [OF q, of v, folded lo_def hi_def, folded pre_def]
  note pn = quiescent_node [OF q sp(4)]
  from q have asc: "sorted_wrt (<) (vals s as)" by (simp add: quiescent_def)
  have as: "as = lo @ hi" by (simp add: lo_def hi_def)
  have old: "x \<in> set (r # as) \<Longrightarrow> x < length (heap s)" for x
    using quiescent_node(1) [OF q] by blast
  have "vals s hi \<noteq> [] \<and> hd (vals s hi) = v"
    unfolding hi_def vals_dropWhile using ascending_hd_dropWhile [OF asc, of v] v by blast
  then obtain c cs where hi: "hi = c # cs" and c: "value (heap s ! c) = v"
    by (cases hi) (auto simp: vals_def)
  have cin: "c \<in> set (r # as)" using sp(5) hi by auto
  note cn = quiescent_node [OF q cin]
  have cp: "c \<noteq> pre" using sp(6) hi by auto
  have nx: "next (heap s ! pre) = Some c" using sp(3) hi by (simp add: first_ptr_def)
  have s': "s' = Delete_done s pre c" by (simp add: s'_def pre_def hi)
  show "Delete s v = Some (Inr (True, s'))"
    unfolding Delete_start [OF q] s' lo_def [symmetric] hi_def [symmetric] pre_def [symmetric]
    using pn(1) pn(3) nx pn(2) cn(1) cn(2) cn(3) c cp
    by (simp add: hi first_ptr_def Delete_commit)
  have "path (heap s) (root s) (butlast (r # lo) @ pre # c # cs) None"
    using sp(1) by (simp only: hi)
  then have path': "path (heap s') (root s') (butlast (r # lo) @ pre # cs) None"
    unfolding s' using Delete_done_path [of s "root s" _ pre c cs] by (simp add: Delete_done_def)
  have "butlast (r # lo) @ pre # cs = r # lo @ cs"
    using sp(2) by (metis append_Cons append_Nil append_assoc)
  with path' have path: "path (heap s') (root s') (r # lo @ cs) None"
    by (simp only:)
  from q have "path (heap s) (root s) (r # as) None" by (simp add: quiescent_def)
  then have "distinct (r # as)" by (rule path_distinct)
  then have cnot: "c \<notin> set (r # lo @ cs)" by (auto simp: as hi)
  have val: "value (heap s' ! x) = value (heap s ! x)"
    and mu: "mutex (heap s' ! x) = (x \<noteq> pre \<and> x \<noteq> c \<and> mutex (heap s ! x))"
    if "x \<in> set (r # as)" for x
    unfolding s' using old [OF that] by (rule Delete_done_old)+
  have mk: "marked (heap s' ! x) = marked (heap s ! x)"
    if "x \<in> set (r # as)" "x \<noteq> c" for x
    unfolding s' using old [OF that(1)] that(2) by (rule Delete_done_old)
  show "value (heap s' ! r) = value (heap s ! r)" by (rule val) simp
  have "vals s' lo = vals s lo" "vals s' cs = vals s cs"
    using val by (auto intro!: vals_cong simp: as hi)
  then have "vals s' (lo @ cs) = vals s lo @ tl (vals s hi)"
    by (simp add: vals_def hi)
  also have "\<dots> = takeWhile (\<lambda>x. x < v) (vals s as) @ tl (dropWhile (\<lambda>x. x < v) (vals s as))"
    unfolding lo_def hi_def by (simp only: vals_takeWhile vals_dropWhile)
  also have "\<dots> = remove1 v (vals s as)"
    using asc v by (rule ascending_delete)
  finally show vs: "vals s' (lo @ tl hi) = remove1 v (vals s as)"
    by (simp add: hi)
  have clean: "\<forall>x \<in> set (r # lo @ cs). \<not> marked (heap s' ! x) \<and> \<not> mutex (heap s' ! x)"
  proof
    fix x assume x: "x \<in> set (r # lo @ cs)"
    then have 1: "x \<in> set (r # as)" by (auto simp: as hi)
    from x cnot have 2: "x \<noteq> c" by auto
    show "\<not> marked (heap s' ! x) \<and> \<not> mutex (heap s' ! x)"
      using mk [OF 1 2] mu [OF 1] quiescent_node(2,3) [OF q 1] by simp
  qed
  have sz: "size s' = of_nat (length (lo @ cs))"
    using q by (simp add: s' Delete_done_def quiescent_def as hi)
  show "quiescent s' r (lo @ tl hi)"
    unfolding quiescent_def
    using path clean sz ascending_remove1 [OF asc, of v] vs by (simp add: hi)
qed

subsection \<open>Calls on a list at rest\<close>

lemma rep_new: "rep NewConcurrentIntList []"
  unfolding rep_def quiescent_def
  by (rule exI [of _ 0], rule exI [of _ "[]"])
    (simp add: NewConcurrentIntList_def newIntNode_def next_def marked_def vals_def)

lemma rep_ascending: "rep s xs \<Longrightarrow> sorted_wrt (<) xs"
  by (auto simp: rep_def quiescent_def)

lemma rep_size: "rep s xs \<Longrightarrow> size s = of_nat (length xs)"
  by (auto simp: rep_def quiescent_def vals_def)

lemma rep_Contains: "rep s xs \<Longrightarrow> Contains s v = Some (Inr (v \<in> set xs, s))"
  by (auto simp: rep_def Contains_quiescent)

lemma rep_Range: "rep s xs \<Longrightarrow> Range s (quiet f) acc = Some (Inr (visit f acc xs, s))"
  by (auto simp: rep_def Range_quiescent)

lemma visit_collect: "visit (\<lambda>acc v. (True, acc @ [v])) acc xs = acc @ xs"
  by (induction xs arbitrary: acc) simp_all

lemma Range_collect: "quiescent s r as \<Longrightarrow> Range s collect [] = Some (Inr (vals s as, s))"
  by (simp add: collect_def Range_quiescent visit_collect)

lemma rep_collect: "rep s xs \<Longrightarrow> Range s collect [] = Some (Inr (xs, s))"
  by (simp add: collect_def rep_Range visit_collect)

lemma rep_Insert_present: "rep s xs \<Longrightarrow> v \<in> set xs \<Longrightarrow> Insert s v = Some (Inr (False, s))"
  by (auto simp: rep_def Insert_quiescent_present)

lemma rep_Insert_absent:
  assumes "rep s xs" "v \<notin> set xs"
  shows "\<exists>s'. Insert s v = Some (Inr (True, s')) \<and> rep s' (put v xs) \<and> size s' = size s + 1"
proof -
  from assms obtain r as where q: "quiescent s r as" and xs: "vals s as = xs"
      and r: "value (heap s ! r) = - 1"
    by (auto simp: rep_def)
  from assms xs have v: "v \<notin> set (vals s as)" by simp
  note ins = Insert_quiescent_absent [OF q v]
  let ?s' = "Insert_done s (last (r # takeWhile (below s v) as)) (first_ptr (dropWhile (below s v) as)) v"
  have "put v xs = takeWhile (\<lambda>x. x < v) (vals s as) @ v # dropWhile (\<lambda>x. x < v) (vals s as)"
    using assms(2) xs by (simp add: put_def)
  with ins(2,3,4) r have "rep ?s' (put v xs)"
    unfolding rep_def by (metis (no_types))
  moreover have "size ?s' = size s + 1" by (simp add: Insert_done_def)
  ultimately show ?thesis using ins(1) by blast
qed

lemma rep_Delete_absent: "rep s xs \<Longrightarrow> v \<notin> set xs \<Longrightarrow> Delete s v = Some (Inr (False, s))"
  by (auto simp: rep_def Delete_quiescent_absent)

lemma rep_Delete_present:
  assumes "rep s xs" "v \<in> set xs"
  shows "\<exists>s'. Delete s v = Some (Inr (True, s')) \<and> rep s' (remove1 v xs) \<and> size s' = size s - 1"
proof -
  from assms obtain r as where q: "quiescent s r as" and xs: "vals s as = xs"
      and r: "value (heap s ! r) = - 1"
    by (auto simp: rep_def)
  from assms xs have v: "v \<in> set (vals s as)" by simp
  note del = Delete_quiescent_present [OF q v]
  let ?s' = "Delete_done s (last (r # takeWhile (below s v) as)) (hd (dropWhile (below s v) as))"
  from del(2,3,4) r xs have "rep ?s' (remove1 v xs)"
    unfolding rep_def by (metis (no_types))
  moreover have "size ?s' = size s - 1" by (simp add: Delete_done_def)
  ultimately show ?thesis using del(1) by blast
qed

lemma set_put: "set (put v xs) = insert v (set xs)"
proof -
  have "set (takeWhile (\<lambda>x. x < v) xs) \<union> set (dropWhile (\<lambda>x. x < v) xs) = set xs"
    by (metis set_append takeWhile_dropWhile_id)
  then show ?thesis by (auto simp: put_def)
qed

lemma set_remove1_ascending:
  fixes xs :: "int list"
  shows "sorted_wrt (<) xs \<Longrightarrow> set (remove1 v xs) = set xs - {v}"
  by (simp add: ascending_distinct)

lemma rep_call:
  assumes "rep s xs"
  shows "\<exists>b s' xs'. do_call s c = Some (Inr (b, s')) \<and> rep s' xs'"
proof (cases c)
  case (InsertCall v)
  then show ?thesis
    using rep_Insert_present [OF assms, of v] rep_Insert_absent [OF assms, of v] assms
    by (cases "v \<in> set xs") (auto simp: do_call_def)
next
  case (DeleteCall v)
  then show ?thesis
    using rep_Delete_present [OF assms, of v] rep_Delete_absent [OF assms, of v] assms
    by (cases "v \<in> set xs") (auto simp: do_call_def)
qed

lemma reachable_rep: "reachable s \<Longrightarrow> \<exists>xs. rep s xs"
proof (induction rule: reachable.induct)
  case reachable_new
  then show ?case using rep_new by blast
next
  case (reachable_call s c b s')
  then obtain xs where "rep s xs" by blast
  from rep_call [OF this, of c] reachable_call(2) show ?case by auto
qed

section \<open>Contains\<close>

lemma Contains_stop:
  assumes "path (heap s) (root s) (r # as) None"
  shows "exec Contains_step s (C65 v) =
         exec Contains_step s (C69 v (first_ptr (dropWhile (skipped s v) as)))"
  using assms by (simp add: exec_Step deref_Some Contains_loop)

lemma Contains_at_stop:
  assumes "path (heap s) (root s) (r # as) None"
  shows "exec Contains_step s (C69 v (first_ptr (dropWhile (skipped s v) as))) =
     Some (Inr (case dropWhile (skipped s v) as of [] \<Rightarrow> False | a # _ \<Rightarrow> value (heap s ! a) = v, s))"
proof -
  define rest where "rest = dropWhile (skipped s v) as"
  have "exec Contains_step s (C69 v (first_ptr rest)) =
     Some (Inr (case rest of [] \<Rightarrow> False | a # _ \<Rightarrow> value (heap s ! a) = v, s))"
  proof (cases rest)
    case Nil
    then show ?thesis by (simp add: first_ptr_def exec_Return)
  next
    case (Cons a bs)
    then have "a \<in> set as" unfolding rest_def by (metis list.set_intros(1) set_dropWhileD)
    with assms have "a < length (heap s)" by (auto dest: path_valid)
    with Cons show ?thesis by (simp add: first_ptr_def exec_Return deref_Some)
  qed
  then show ?thesis unfolding rest_def .
qed

text \<open>
  Claim C4. In every state whose chain from the sentinel \<open>r\<close> runs through the nodes \<open>as\<close> to
  nil, also one where marked nodes are still linked, Contains passes every node that is
  marked or holds a value below \<open>v\<close>, and leaves its loop at the first node that is unmarked
  with a value of at least \<open>v\<close>, or at nil. It returns true exactly when that node exists
  and holds \<open>v\<close>. So a true answer always comes from an unmarked node, and a value held by
  marked nodes only is reported absent.
\<close>

theorem Contains_passes_marked_and_smaller:
  assumes "path (heap s) (root s) (r # as) None"
  shows "(\<forall>a \<in> set (takeWhile (skipped s v) as). marked (heap s ! a) \<or> value (heap s ! a) < v) \<and>
     (case dropWhile (skipped s v) as of
        [] \<Rightarrow> exec Contains_step s (C65 v) = exec Contains_step s (C69 v None) \<and>
              Contains s v = Some (Inr (False, s))
      | a # _ \<Rightarrow> \<not> marked (heap s ! a) \<and> v \<le> value (heap s ! a) \<and>
              exec Contains_step s (C65 v) = exec Contains_step s (C69 v (Some a)) \<and>
              Contains s v = Some (Inr (value (heap s ! a) = v, s))) \<and>
     (Contains s v = Some (Inr (True, s)) \<longrightarrow>
        (\<exists>a \<in> set as. \<not> marked (heap s ! a) \<and> value (heap s ! a) = v)) \<and>
     ((\<forall>a \<in> set as. value (heap s ! a) = v \<longrightarrow> marked (heap s ! a)) \<longrightarrow>
        Contains s v = Some (Inr (False, s)))"
proof -
  define rest where "rest = dropWhile (skipped s v) as"
  have 1: "\<forall>a \<in> set (takeWhile (skipped s v) as). marked (heap s ! a) \<or> value (heap s ! a) < v"
    by (auto dest: set_takeWhileD simp: skipped_def)
  have res: "Contains s v =
     Some (Inr (case rest of [] \<Rightarrow> False | a # _ \<Rightarrow> value (heap s ! a) = v, s))"
    unfolding Contains_def Contains_stop [OF assms] rest_def by (rule Contains_at_stop [OF assms])
  have stop: "exec Contains_step s (C65 v) = exec Contains_step s (C69 v (first_ptr rest))"
    unfolding rest_def by (rule Contains_stop [OF assms])
  have hd: "\<not> marked (heap s ! a) \<and> v \<le> value (heap s ! a) \<and> a \<in> set as" if "rest = a # bs" for a bs
  proof -
    from that have "\<not> skipped s v a"
      unfolding rest_def by (metis hd_dropWhile list.distinct(1) list.sel(1))
    moreover from that have "a \<in> set as"
      unfolding rest_def by (metis list.set_intros(1) set_dropWhileD)
    ultimately show ?thesis by (simp add: skipped_def)
  qed
  have 2: "case rest of
        [] \<Rightarrow> exec Contains_step s (C65 v) = exec Contains_step s (C69 v None) \<and>
              Contains s v = Some (Inr (False, s))
      | a # _ \<Rightarrow> \<not> marked (heap s ! a) \<and> v \<le> value (heap s ! a) \<and>
              exec Contains_step s (C65 v) = exec Contains_step s (C69 v (Some a)) \<and>
              Contains s v = Some (Inr (value (heap s ! a) = v, s))"
  proof (cases rest)
    case Nil
    then show ?thesis using res stop by (simp add: first_ptr_def)
  next
    case (Cons a bs)
    then show ?thesis using res stop hd [OF Cons] by (simp add: first_ptr_def)
  qed
  have 3: "\<exists>a \<in> set as. \<not> marked (heap s ! a) \<and> value (heap s ! a) = v"
    if "Contains s v = Some (Inr (True, s))"
  proof (cases rest)
    case Nil
    with res that show ?thesis by simp
  next
    case (Cons a bs)
    with res that hd [OF Cons] show ?thesis by auto
  qed
  have 4: "Contains s v = Some (Inr (False, s))"
    if "\<forall>a \<in> set as. value (heap s ! a) = v \<longrightarrow> marked (heap s ! a)"
  proof (cases rest)
    case Nil
    with res show ?thesis by simp
  next
    case (Cons a bs)
    with res that hd [OF Cons] show ?thesis by auto
  qed
  from 1 2 3 4 show ?thesis unfolding rest_def by blast
qed

theorem Contains_passes_marked_and_smaller_witness:
  "path (heap marked_but_linked) (root marked_but_linked) [0, 1, 2] None \<and>
   marked (heap marked_but_linked ! 1) \<and> value (heap marked_but_linked ! 1) = 3 \<and>
   dropWhile (skipped marked_but_linked 3) [1, 2] = [2] \<and>
   Contains marked_but_linked 3 = Some (Inr (False, marked_but_linked)) \<and>
   Contains marked_but_linked 5 = Some (Inr (True, marked_but_linked))"
proof -
  have h: "path (heap marked_but_linked) (root marked_but_linked) (0 # [1, 2]) None"
    by (simp add: marked_but_linked_def newIntNode_def next_def)
  have d3: "dropWhile (skipped marked_but_linked 3) [1, 2] = [2]"
    and d5: "dropWhile (skipped marked_but_linked 5) [1, 2] = [2]"
    by (simp_all add: marked_but_linked_def newIntNode_def skipped_def marked_def)
  have v: "value (heap marked_but_linked ! 2) = 5" "marked (heap marked_but_linked ! 1)"
    "value (heap marked_but_linked ! 1) = 3"
    by (simp_all add: marked_but_linked_def newIntNode_def marked_def)
  from Contains_passes_marked_and_smaller [OF h, of 3]
    Contains_passes_marked_and_smaller [OF h, of 5]
  show ?thesis using h d3 d5 v by simp
qed


lemma run_calls_rep:
  assumes "rep s xs"
  shows "\<exists>bs s' xs'. run_calls s cs = Some (Inr (bs, s')) \<and> rep s' xs' \<and> length bs = length cs \<and>
     (\<forall>v. (if v \<in> set xs' then 1 else 0) = (if v \<in> set xs then 1 else 0) + net_true cs bs v)"
  using assms
proof (induction cs arbitrary: s xs)
  case Nil
  then show ?case by auto
next
  case (Cons c cs)
  have "\<exists>b s1 xs1. do_call s c = Some (Inr (b, s1)) \<and> rep s1 xs1 \<and>
      (\<forall>v. (if v \<in> set xs1 then 1 else 0) = (if v \<in> set xs then (1::int) else 0) +
         (if b \<and> c = InsertCall v then 1 else if b \<and> c = DeleteCall v then - 1 else 0))"
  proof (cases c)
    case (InsertCall w)
    show ?thesis
    proof (cases "w \<in> set xs")
      case True
      with Cons.prems InsertCall show ?thesis
        using rep_Insert_present [of s xs w] by (auto simp: do_call_def)
    next
      case False
      with Cons.prems InsertCall show ?thesis
        using rep_Insert_absent [of s xs w] by (fastforce simp: do_call_def set_put)
    qed
  next
    case (DeleteCall w)
    show ?thesis
    proof (cases "w \<in> set xs")
      case True
      with Cons.prems DeleteCall show ?thesis
        using rep_Delete_present [of s xs w] rep_ascending [of s xs]
        by (fastforce simp: do_call_def set_remove1_ascending)
    next
      case False
      with Cons.prems DeleteCall show ?thesis
        using rep_Delete_absent [of s xs w] by (auto simp: do_call_def)
    qed
  qed
  then obtain b s1 xs1 where 1: "do_call s c = Some (Inr (b, s1))" and r1: "rep s1 xs1"
    and n1: "\<And>v. (if v \<in> set xs1 then 1 else 0) = (if v \<in> set xs then (1::int) else 0) +
         (if b \<and> c = InsertCall v then 1 else if b \<and> c = DeleteCall v then - 1 else 0)"
    by blast
  from Cons.IH [OF r1] obtain bs s' xs' where 2: "run_calls s1 cs = Some (Inr (bs, s'))"
    and r2: "rep s' xs'" and l2: "length bs = length cs"
    and n2: "\<And>v. (if v \<in> set xs' then 1 else 0) = (if v \<in> set xs1 then 1 else 0) + net_true cs bs v"
    by blast
  have "run_calls s (c # cs) = Some (Inr (b # bs, s'))" using 1 2 by simp
  moreover have "(if v \<in> set xs' then 1 else 0) =
      (if v \<in> set xs then 1 else 0) + net_true (c # cs) (b # bs) v" for v
    using n1 [of v] n2 [of v] by simp
  ultimately show ?case using r2 l2 by (intro exI [of _ "b # bs"] exI [of _ s'] exI [of _ xs']) simp
qed

lemma reachable_run:
  "reachable s \<Longrightarrow> run_calls s cs = Some (Inr (bs, s')) \<Longrightarrow> reachable s'"
proof (induction cs arbitrary: s bs)
  case Nil
  then show ?case by simp
next
  case (Cons c cs)
  from Cons.prems(2) obtain b s1 bs1 where 1: "do_call s c = Some (Inr (b, s1))"
    and 2: "run_calls s1 cs = Some (Inr (bs1, s'))"
    by (auto split: option.splits sum.splits)
  from Cons.prems(1) 1 have "reachable s1" by (rule reachable_call)
  then show ?case using 2 by (rule Cons.IH)
qed

lemma reachable_state_after: "reachable (state_after cs)"
proof -
  from run_calls_rep [OF rep_new, of cs] obtain bs s' where
    "run_calls NewConcurrentIntList cs = Some (Inr (bs, s'))" by blast
  with reachable_run [OF reachable_new this] show ?thesis by (simp add: state_after_def)
qed

lemma Len_exact:
  assumes "size s = of_nat n" "n < 2 ^ 63"
  shows "Len s = int n"
proof -
  have "sint (of_nat n :: 64 word) = signed_take_bit 63 (int n)"
    by (simp add: signed_of_nat)
  also have "\<dots> = int n"
    using assms(2) by (simp add: signed_take_bit_int_eq_self)
  finally show ?thesis using assms(1) by (simp add: Len_def)
qed

section \<open>Call sequences, then a traversal\<close>

lemma net_true_positive:
  assumes "length bs = length cs" "0 < net_true cs bs v"
  shows "\<exists>i < length cs. cs ! i = InsertCall v \<and> bs ! i"
  using assms
proof (induction cs bs v rule: net_true.induct)
  case (1 c cs b bs v)
  show ?case
  proof (cases "b \<and> c = InsertCall v")
    case True
    then show ?thesis by (intro exI [of _ 0]) simp
  next
    case False
    with 1 have "0 < net_true cs bs v" by (auto split: if_splits)
    with 1 obtain i where "i < length cs" "cs ! i = InsertCall v \<and> bs ! i" by auto
    then show ?thesis by (intro exI [of _ "Suc i"]) simp
  qed
qed simp_all

section \<open>Delete\<close>

text \<open>
  Claim C3. In a state reached by completed calls, Delete of a value that Contains reports
  absent returns false and leaves the whole state, chain and counter, as it is; Delete of
  a value that Contains reports present returns true, and Contains reports it absent
  afterwards.
\<close>

theorem Delete_absent_and_present:
  assumes "reachable s"
  shows "\<exists>b. Contains s v = Some (Inr (b, s)) \<and>
     (if b then \<exists>s'. Delete s v = Some (Inr (True, s')) \<and> Contains s' v = Some (Inr (False, s'))
      else Delete s v = Some (Inr (False, s)))"
proof -
  from reachable_rep [OF assms] obtain xs where rep: "rep s xs" by blast
  show ?thesis
  proof (cases "v \<in> set xs")
    case True
    from rep_Delete_present [OF rep True] obtain s' where
      d: "Delete s v = Some (Inr (True, s'))" and r': "rep s' (remove1 v xs)" by blast
    have "v \<notin> set (remove1 v xs)"
      using rep_ascending [OF rep] by (simp add: set_remove1_ascending)
    with rep_Contains [OF r', of v] have "Contains s' v = Some (Inr (False, s'))" by simp
    with d rep_Contains [OF rep, of v] True show ?thesis by auto
  next
    case False
    with rep_Delete_absent [OF rep False] rep_Contains [OF rep, of v] show ?thesis by auto
  qed
qed

theorem Delete_absent_and_present_witness:
  "reachable (state_after [InsertCall 5, InsertCall 1, InsertCall 3]) \<and>
   Contains (state_after [InsertCall 5, InsertCall 1, InsertCall 3]) 3 =
     Some (Inr (True, state_after [InsertCall 5, InsertCall 1, InsertCall 3])) \<and>
   Delete (state_after [InsertCall 5, InsertCall 1, InsertCall 3]) 3 =
     Some (Inr (True, state_after [InsertCall 5, InsertCall 1, InsertCall 3, DeleteCall 3])) \<and>
   Contains (state_after [InsertCall 5, InsertCall 1, InsertCall 3, DeleteCall 3]) 3 =
     Some (Inr (False, state_after [InsertCall 5, InsertCall 1, InsertCall 3, DeleteCall 3])) \<and>
   Contains (state_after [InsertCall 5, InsertCall 1, InsertCall 3]) 4 =
     Some (Inr (False, state_after [InsertCall 5, InsertCall 1, InsertCall 3])) \<and>
   Delete (state_after [InsertCall 5, InsertCall 1, InsertCall 3]) 4 =
     Some (Inr (False, state_after [InsertCall 5, InsertCall 1, InsertCall 3]))"
proof -
  let ?s = "state_after [InsertCall 5, InsertCall 1, InsertCall 3]"
  let ?s' = "state_after [InsertCall 5, InsertCall 1, InsertCall 3, DeleteCall 3]"
  have r: "reachable ?s" by (rule reachable_state_after)
  have c3: "Contains ?s 3 = Some (Inr (True, ?s))" and c4: "Contains ?s 4 = Some (Inr (False, ?s))"
    and d3: "Delete ?s 3 = Some (Inr (True, ?s'))"
    by code_simp+
  from Delete_absent_and_present [OF r, of 3] c3 d3
  have "Contains ?s' 3 = Some (Inr (False, ?s'))" by auto
  moreover from Delete_absent_and_present [OF r, of 4] c4
  have "Delete ?s 4 = Some (Inr (False, ?s))" by auto
  ultimately show ?thesis using r c3 c4 d3 by simp
qed

section \<open>The counter\<close>

text \<open>
  Claim C5. In a state reached by completed calls the counter equals, as a 64-bit word, the
  number of values in the list, which are the values a traversal shows and the values
  Contains reports; so Len is that number whenever it fits an int64. An Insert adds one to
  the counter exactly when it returns true, and a Delete takes one off exactly when it
  returns true.
\<close>

theorem Len_counts_live_values:
  assumes "reachable s"
  shows "(\<exists>xs. Range s collect [] = Some (Inr (xs, s)) \<and> distinct xs \<and>
        set xs = {v. Contains s v = Some (Inr (True, s))} \<and>
        size s = of_nat (length xs) \<and>
        (length xs < 2 ^ 63 \<longrightarrow> Len s = int (card {v. Contains s v = Some (Inr (True, s))}))) \<and>
     (\<forall>v. \<exists>b s'. Insert s v = Some (Inr (b, s')) \<and> size s' = (if b then size s + 1 else size s)) \<and>
     (\<forall>v. \<exists>b s'. Delete s v = Some (Inr (b, s')) \<and> size s' = (if b then size s - 1 else size s))"
proof -
  from reachable_rep [OF assms] obtain xs where rep: "rep s xs" by blast
  have d: "distinct xs" using rep_ascending [OF rep] by (rule ascending_distinct)
  have set: "set xs = {v. Contains s v = Some (Inr (True, s))}"
    using rep_Contains [OF rep] by auto
  have "Len s = int (card {v. Contains s v = Some (Inr (True, s))})" if "length xs < 2 ^ 63"
    using Len_exact [OF rep_size [OF rep] that] distinct_card [OF d] set by simp
  then have 1: "\<exists>xs. Range s collect [] = Some (Inr (xs, s)) \<and> distinct xs \<and>
        set xs = {v. Contains s v = Some (Inr (True, s))} \<and>
        size s = of_nat (length xs) \<and>
        (length xs < 2 ^ 63 \<longrightarrow> Len s = int (card {v. Contains s v = Some (Inr (True, s))}))"
    using rep_collect [OF rep] d set rep_size [OF rep]
    by (intro exI [of _ xs]) simp
  have 2: "\<exists>b s'. Insert s v = Some (Inr (b, s')) \<and> size s' = (if b then size s + 1 else size s)" for v
    using rep_Insert_present [OF rep, of v] rep_Insert_absent [OF rep, of v]
    by (cases "v \<in> set xs") auto
  have 3: "\<exists>b s'. Delete s v = Some (Inr (b, s')) \<and> size s' = (if b then size s - 1 else size s)" for v
    using rep_Delete_present [OF rep, of v] rep_Delete_absent [OF rep, of v]
    by (cases "v \<in> set xs") auto
  from 1 2 3 show ?thesis by blast
qed

theorem Len_counts_live_values_witness:
  "reachable (state_after [InsertCall 5, InsertCall 1, InsertCall 3, DeleteCall 1]) \<and>
   Range (state_after [InsertCall 5, InsertCall 1, InsertCall 3, DeleteCall 1]) collect [] =
     Some (Inr ([3, 5], state_after [InsertCall 5, InsertCall 1, InsertCall 3, DeleteCall 1])) \<and>
   length [3, 5 :: int] < 2 ^ 63 \<and>
   Len (state_after [InsertCall 5, InsertCall 1, InsertCall 3, DeleteCall 1]) = 2 \<and>
   card {v. Contains (state_after [InsertCall 5, InsertCall 1, InsertCall 3, DeleteCall 1]) v =
     Some (Inr (True, state_after [InsertCall 5, InsertCall 1, InsertCall 3, DeleteCall 1]))} = 2"
proof -
  let ?s = "state_after [InsertCall 5, InsertCall 1, InsertCall 3, DeleteCall 1]"
  have r: "reachable ?s" by (rule reachable_state_after)
  have rng: "Range ?s collect [] = Some (Inr ([3, 5], ?s))" and len: "Len ?s = 2"
    by code_simp+
  from Len_counts_live_values [OF r] rng len
  have "int (card {v. Contains ?s v = Some (Inr (True, ?s))}) = 2" by auto
  then show ?thesis using r rng len by simp
qed

section \<open>Insert\<close>

lemma all_held_simps:
  "length (heap (all_held s)) = length (heap s)"
  "root (all_held s) = root s"
  "a < length (heap s) \<Longrightarrow> next (heap (all_held s) ! a) = next (heap s ! a)"
  "a < length (heap s) \<Longrightarrow> value (heap (all_held s) ! a) = value (heap s ! a)"
  by (simp_all add: all_held_def next_def)

lemma path_all_held: "path (heap (all_held s)) p as q = path (heap s) p as q"
proof (induction as arbitrary: p)
  case Nil
  show ?case by simp
next
  case (Cons a as)
  show ?case
  proof (cases "a < length (heap s)")
    case True
    then show ?thesis by (simp add: Cons all_held_simps)
  next
    case False
    then show ?thesis by (simp add: all_held_simps)
  qed
qed

lemma Insert_duplicate:
  assumes p: "path (heap s) (root s) (r # as) None"
    and d: "dropWhile (below s v) as = c # cs" and c: "value (heap s ! c) = v"
  shows "Insert s v = Some (Inr (False, s))"
proof -
  have "c \<in> set as" using d by (metis list.set_intros(1) set_dropWhileD)
  with p have "c < length (heap s)" by (auto dest: path_valid)
  have "Insert s v =
     exec Insert_step s (I85 v (Some (last (r # takeWhile (below s v) as)))
       (first_ptr (dropWhile (below s v) as)))"
  proof -
    from p have "root s = Some r" "r < length (heap s)" "path (heap s) (next (heap s ! r)) as None"
      by simp_all
    then show ?thesis by (simp add: Insert_def exec_Step deref_Some Insert_search)
  qed
  also have "\<dots> = Some (Inr (False, s))"
    unfolding d using c \<open>c < length (heap s)\<close>
    by (simp add: first_ptr_def exec_Return deref_Some)
  finally show ?thesis .
qed

lemma quiescent_found:
  assumes q: "quiescent s r as" and v: "v \<in> set (vals s as)"
  shows "\<exists>c cs. dropWhile (below s v) as = c # cs \<and> value (heap s ! c) = v"
proof -
  define hi where "hi = dropWhile (below s v) as"
  from q have asc: "sorted_wrt (<) (vals s as)" by (simp add: quiescent_def)
  have "vals s hi \<noteq> [] \<and> hd (vals s hi) = v"
    unfolding hi_def vals_dropWhile using ascending_hd_dropWhile [OF asc, of v] v by blast
  then have "\<exists>c cs. hi = c # cs \<and> value (heap s ! c) = v"
    by (cases hi) (auto simp: vals_def)
  then show ?thesis unfolding hi_def .
qed

lemma Insert_duplicate_all_held:
  assumes rep: "rep s xs" and v: "v \<in> set xs"
  shows "Insert (all_held s) v = Some (Inr (False, all_held s))"
proof -
  from rep obtain r as where q: "quiescent s r as" and xs: "vals s as = xs"
    by (auto simp: rep_def)
  from q have p: "path (heap s) (root s) (r # as) None" by (simp add: quiescent_def)
  have valid: "a \<in> set as \<Longrightarrow> a < length (heap s)" for a
    using path_valid [OF p, of a] by simp
  from v xs have "v \<in> set (vals s as)" by simp
  from quiescent_found [OF q this] obtain c cs where
    d: "dropWhile (below s v) as = c # cs" and c: "value (heap s ! c) = v" by blast
  have cin: "c \<in> set as" using d by (metis list.set_intros(1) set_dropWhileD)
  have p': "path (heap (all_held s)) (root (all_held s)) (r # as) None"
    using p by (simp only: path_all_held all_held_simps)
  have "dropWhile (below (all_held s) v) as = dropWhile (below s v) as"
    by (rule dropWhile_cong) (simp_all add: below_def all_held_simps valid)
  then have d': "dropWhile (below (all_held s) v) as = c # cs" using d by simp
  have c': "value (heap (all_held s) ! c) = v"
    using c valid [OF cin] by (simp add: all_held_simps)
  from p' d' c' show ?thesis by (rule Insert_duplicate)
qed

text \<open>
  Claim C2. In a state reached by completed calls, Insert returns true exactly when
  Contains reports the value absent. After it the value is present, a second Insert of it
  returns false and leaves the whole state as it is, and Contains still reports the value
  present. The duplicate call takes no lock: it returns the same answer, with nothing
  changed, when every mutex of the list is held by somebody else.
\<close>

theorem Insert_true_iff_absent:
  assumes "reachable s"
  shows "\<exists>b s1. Contains s v = Some (Inr (b, s)) \<and> Insert s v = Some (Inr (\<not> b, s1)) \<and>
     (b \<longrightarrow> s1 = s) \<and>
     Contains s1 v = Some (Inr (True, s1)) \<and>
     Insert s1 v = Some (Inr (False, s1)) \<and>
     Insert (all_held s1) v = Some (Inr (False, all_held s1))"
proof -
  from reachable_rep [OF assms] obtain xs where rep: "rep s xs" by blast
  show ?thesis
  proof (cases "v \<in> set xs")
    case True
    show ?thesis
      using rep_Contains [OF rep, of v] rep_Insert_present [OF rep True]
        Insert_duplicate_all_held [OF rep True] True
      by (intro exI [of _ True] exI [of _ s]) simp
  next
    case False
    from rep_Insert_absent [OF rep False] obtain s1 where
      i: "Insert s v = Some (Inr (True, s1))" and r1: "rep s1 (put v xs)" by blast
    have v1: "v \<in> set (put v xs)" by (simp add: set_put)
    show ?thesis
      using rep_Contains [OF rep, of v] False i rep_Contains [OF r1, of v] v1
        rep_Insert_present [OF r1 v1] Insert_duplicate_all_held [OF r1 v1]
      by (intro exI [of _ False] exI [of _ s1]) simp
  qed
qed

theorem Insert_true_iff_absent_witness:
  "reachable (state_after [InsertCall 5]) \<and>
   Contains (state_after [InsertCall 5]) 3 = Some (Inr (False, state_after [InsertCall 5])) \<and>
   Insert (state_after [InsertCall 5]) 3 = Some (Inr (True, state_after [InsertCall 5, InsertCall 3])) \<and>
   Contains (state_after [InsertCall 5, InsertCall 3]) 3 =
     Some (Inr (True, state_after [InsertCall 5, InsertCall 3])) \<and>
   Insert (state_after [InsertCall 5, InsertCall 3]) 3 =
     Some (Inr (False, state_after [InsertCall 5, InsertCall 3])) \<and>
   Insert (all_held (state_after [InsertCall 5, InsertCall 3])) 3 =
     Some (Inr (False, all_held (state_after [InsertCall 5, InsertCall 3]))) \<and>
   Insert (all_held (state_after [InsertCall 5, InsertCall 3])) 4 = None"
proof -
  let ?s = "state_after [InsertCall 5]"
  let ?s1 = "state_after [InsertCall 5, InsertCall 3]"
  have r: "reachable ?s" by (rule reachable_state_after)
  have c: "Contains ?s 3 = Some (Inr (False, ?s))"
    and i: "Insert ?s 3 = Some (Inr (True, ?s1))"
    and b: "Insert (all_held ?s1) 4 = None"
    by code_simp+
  from Insert_true_iff_absent [OF r, of 3] c i
  have "Contains ?s1 3 = Some (Inr (True, ?s1)) \<and> Insert ?s1 3 = Some (Inr (False, ?s1)) \<and>
     Insert (all_held ?s1) 3 = Some (Inr (False, all_held ?s1))"
    by auto
  then show ?thesis using r c i b by simp
qed

section \<open>The sentinel\<close>

lemma rep_sentinel: "rep s xs \<Longrightarrow> sentinel_value s = Some (- 1)"
  by (auto simp: rep_def quiescent_def sentinel_value_def deref_Some)

lemma quiescent_with_sentinel:
  assumes q: "quiescent s r as"
  shows "quiescent (with_sentinel x s) r as" and "vals (with_sentinel x s) as = vals s as"
proof -
  let ?s = "with_sentinel x s"
  from q have p: "path (heap s) (root s) (r # as) None" by (simp add: quiescent_def)
  then have r: "root s = Some r" "r < length (heap s)" by simp_all
  from p have "distinct (r # as)" by (rule path_distinct)
  then have rn: "r \<notin> set as" by simp
  have h: "heap ?s = (heap s)[r := (heap s ! r)\<lparr>value := x\<rparr>]" and rt: "root ?s = root s"
    and sz: "size ?s = size s"
    using r by (simp_all add: with_sentinel_def)
  have nth: "a \<in> set as \<Longrightarrow> heap ?s ! a = heap s ! a" for a
    using rn by (cases "a = r") (simp_all add: h)
  have nr: "heap ?s ! r = (heap s ! r)\<lparr>value := x\<rparr>"
    using r by (simp add: h)
  have "path (heap ?s) (root ?s) (r # as) None"
    unfolding h rt using p r by (simp add: path_update_next next_def)
  moreover show v: "vals ?s as = vals s as"
    by (rule vals_cong) (simp add: nth)
  moreover have "\<forall>a \<in> set (r # as). \<not> marked (heap ?s ! a) \<and> \<not> mutex (heap ?s ! a)"
    using q nth nr by (auto simp: quiescent_def marked_def)
  ultimately show "quiescent ?s r as"
    using q by (simp add: quiescent_def sz)
qed

lemma quiescent_results:
  assumes q: "quiescent s r as" and q': "quiescent s' r' as'" and v: "vals s' as' = vals s as"
  shows "result_of (Contains s' w) = result_of (Contains s w)"
    and "result_of (Insert s' w) = result_of (Insert s w)"
    and "result_of (Delete s' w) = result_of (Delete s w)"
    and "result_of (Range s' (quiet f) acc) = result_of (Range s (quiet f) acc)"
proof -
  show "result_of (Contains s' w) = result_of (Contains s w)"
    by (simp add: Contains_quiescent [OF q] Contains_quiescent [OF q'] v result_of_def)
  show "result_of (Range s' (quiet f) acc) = result_of (Range s (quiet f) acc)"
    by (simp add: Range_quiescent [OF q] Range_quiescent [OF q'] v result_of_def)
  show "result_of (Insert s' w) = result_of (Insert s w)"
  proof (cases "w \<in> set (vals s as)")
    case True
    then show ?thesis
      using Insert_quiescent_present [OF q, of w] Insert_quiescent_present [OF q', of w] v
      by (simp add: result_of_def)
  next
    case False
    then show ?thesis
      using Insert_quiescent_absent(1) [OF q, of w] Insert_quiescent_absent(1) [OF q', of w] v
      by (simp add: result_of_def)
  qed
  show "result_of (Delete s' w) = result_of (Delete s w)"
  proof (cases "w \<in> set (vals s as)")
    case True
    then show ?thesis
      using Delete_quiescent_present(1) [OF q, of w] Delete_quiescent_present(1) [OF q', of w] v
      by (simp add: result_of_def)
  next
    case False
    then show ?thesis
      using Delete_quiescent_absent [OF q, of w] Delete_quiescent_absent [OF q', of w] v
      by (simp add: result_of_def)
  qed
qed

text \<open>
  Claim C6, as the code has it. In every state reached by completed calls the sentinel
  stores \<open>-1\<close>. That is below every value from 0 on, and not below a value of \<open>-1\<close> or less;
  such a value is inserted like any other when it is absent.
\<close>

theorem sentinel_stores_minus_one:
  assumes "reachable s"
  shows "sentinel_value s = Some (- 1) \<and>
     (\<forall>v. 0 \<le> v \<longrightarrow> (\<exists>x. sentinel_value s = Some x \<and> x < v)) \<and>
     (\<forall>v. v \<le> - 1 \<longrightarrow> (\<exists>x. sentinel_value s = Some x \<and> \<not> x < v) \<and>
        (Contains s v = Some (Inr (False, s)) \<longrightarrow> result_of (Insert s v) = Some True))"
proof -
  from reachable_rep [OF assms] obtain xs where rep: "rep s xs" by blast
  have "result_of (Insert s v) = Some True" if "Contains s v = Some (Inr (False, s))" for v
  proof -
    from that rep_Contains [OF rep, of v] have "v \<notin> set xs" by simp
    from rep_Insert_absent [OF rep this] show ?thesis by (auto simp: result_of_def)
  qed
  then show ?thesis using rep_sentinel [OF rep] by simp
qed

theorem sentinel_stores_minus_one_witness:
  "reachable (state_after [InsertCall 2]) \<and> sentinel_value (state_after [InsertCall 2]) = Some (- 1) \<and>
   (- 5 :: int) \<le> - 1 \<and>
   Contains (state_after [InsertCall 2]) (- 5) = Some (Inr (False, state_after [InsertCall 2])) \<and>
   result_of (Insert (state_after [InsertCall 2]) (- 5)) = Some True"
proof -
  let ?s = "state_after [InsertCall 2]"
  have r: "reachable ?s" by (rule reachable_state_after)
  have c: "Contains ?s (- 5) = Some (Inr (False, ?s))" by code_simp
  from sentinel_stores_minus_one [OF r] c show ?thesis using r by simp
qed

text \<open>As stated the claim fails: \<open>-5\<close> is inserted into a new list, and the sentinel's
  \<open>-1\<close> is not below it.\<close>

theorem sentinel_not_least_counterexample:
  "result_of (Insert NewConcurrentIntList (- 5)) = Some True \<and>
   sentinel_value NewConcurrentIntList = Some (- 1) \<and> \<not> (- 1 :: int) < - 5"
  by code_simp

section \<open>Steps of Insert and Delete\<close>

subsection \<open>The chain under single writes\<close>

lemma path_next_in:
  assumes "path h q xs None" "p \<in> set xs" "next (h ! p) = Some c"
  shows "c \<in> set xs"
proof -
  from assms(2) obtain ys zs where xs: "xs = ys @ p # zs"
    by (auto simp: in_set_conv_decomp)
  with assms(1) have "path h (next (h ! p)) zs None" by (auto simp: path_append)
  with assms(3) have "Some c = first_ptr zs" by (simp add: path_first)
  then show ?thesis by (cases zs) (simp_all add: first_ptr_def xs)
qed

lemma shape_root: "shape s ns L M \<Longrightarrow> root s = Some (hd ns) \<and> hd ns < length (heap s) \<and> hd ns \<in> set ns"
  unfolding shape_def by (cases ns) simp_all

lemma shape_valid: "shape s ns L M \<Longrightarrow> a \<in> set ns \<Longrightarrow> a < length (heap s)"
  unfolding shape_def by (blast dest: path_valid)

lemma shape_next_in:
  "shape s ns L M \<Longrightarrow> p \<in> set ns \<Longrightarrow> next (heap s ! p) = Some c \<Longrightarrow> c \<in> set ns"
  unfolding shape_def by (blast dest: path_next_in)

lemma shape_mutex: "shape s ns L M \<Longrightarrow> a \<in> set ns \<Longrightarrow> mutex (heap s ! a) = (a \<in> L)"
  unfolding shape_def by blast

lemma shape_marked: "shape s ns L M \<Longrightarrow> a \<in> set ns \<Longrightarrow> marked (heap s ! a) = (a \<in> M)"
  unfolding shape_def by blast

lemma shape_linked: "shape s ns L M \<Longrightarrow> linked s a = (a \<in> set ns)"
  unfolding shape_def linked_def by (blast dest: path_unique)

lemma shape_update:
  assumes s: "shape s ns L M" and a: "a < length (heap s)" and n: "next n = next (heap s ! a)"
  shows "shape (store s a n) ns (if mutex n then insert a L else L - {a})
     (if marked n then insert a M else M - {a})"
proof -
  have h: "heap (store s a n) = (heap s)[a := n]" and rt: "root (store s a n) = root s"
    by (simp_all add: store_def)
  have nth: "heap (store s a n) ! x = (if x = a then n else heap s ! x)" for x
    using a by (simp add: h nth_list_update)
  from s have "path (heap (store s a n)) (root (store s a n)) ns None"
    unfolding h rt shape_def by (simp only: path_update_next [OF a n])
  moreover from s have "\<forall>x \<in> set ns. (mutex (heap s ! x) \<longleftrightarrow> x \<in> L) \<and> (marked (heap s ! x) \<longleftrightarrow> x \<in> M)"
    and "ns \<noteq> []"
    by (simp_all add: shape_def)
  ultimately show ?thesis
    unfolding shape_def by (simp add: nth)
qed

lemma shape_off:
  assumes s: "shape s ns L M" and a: "a \<notin> set ns"
  shows "shape s ns (L - {a}) (M - {a})"
  using assms unfolding shape_def by blast

lemma shape_grow: "shape s ns L M \<Longrightarrow> shape (s\<lparr>heap := heap s @ [n]\<rparr>) ns L M"
proof -
  assume s: "shape s ns L M"
  then have pa: "path (heap s) (root s) ns None" by (simp add: shape_def)
  have "x \<in> set ns \<Longrightarrow> (heap s @ [n]) ! x = heap s ! x" for x
    using path_valid [OF pa, of x] by (simp add: nth_append)
  then show ?thesis
    using s path_grow [OF pa, of n] unfolding shape_def by simp
qed

lemma shape_size: "shape (s\<lparr>size := z\<rparr>) ns L M = shape s ns L M"
  by (simp add: shape_def)

lemma shape_store_off:
  assumes "a \<notin> set ns"
  shows "shape (store s a n) ns L M = shape s ns L M"
proof -
  have "x \<in> set ns \<Longrightarrow> (heap s)[a := n] ! x = heap s ! x" for x
    using assms by (cases "x = a") simp_all
  then show ?thesis
    using path_update_other [OF assms, of "heap s" n "root s" None]
    unfolding shape_def by (simp add: store_def)
qed

lemma path_link:
  assumes p: "path h q (xs @ p # ys) None"
    and a: "a < length h" "a \<notin> set (xs @ p # ys)" "next (h ! a) = next (h ! p)"
    and p': "next p' = Some a"
  shows "path (h[p := p']) q (xs @ p # a # ys) None"
proof -
  from p have d: "distinct (xs @ p # ys)" by (rule path_distinct)
  from p have 1: "path h q xs (Some p)" and 2: "path h (next (h ! p)) ys None" "p < length h"
    by (auto simp: path_append)
  from 1 d have x: "path (h[p := p']) q xs (Some p)" by (simp add: path_update_other)
  from 2 d have y: "path (h[p := p']) (next (h ! p)) ys None" by (simp add: path_update_other)
  have "a \<noteq> p" using a(2) by auto
  then show ?thesis using x y 2 a p' by (simp add: path_append)
qed

lemma shape_link:
  assumes s: "shape s ns L M" and p: "p \<in> set ns"
    and a: "a < length (heap s)" "a \<notin> set ns" "next (heap s ! a) = next (heap s ! p)"
      "mutex (heap s ! a) = (a \<in> L)" "marked (heap s ! a) = (a \<in> M)"
  shows "\<exists>ns'. shape (store s p (updateNext (heap s ! p) (Some a))) ns' L M \<and>
     set ns' = insert a (set ns)"
proof -
  let ?n = "updateNext (heap s ! p) (Some a)"
  let ?s = "store s p ?n"
  from s have pa: "path (heap s) (root s) ns None" by (simp add: shape_def)
  from p obtain xs ys where split: "ns = xs @ p # ys" by (metis in_set_conv_decomp)
  have pl: "p < length (heap s)" using shape_valid [OF s p] .
  have h: "heap ?s = (heap s)[p := ?n]" and rt: "root ?s = root s" by (simp_all add: store_def)
  define ns' where "ns' = xs @ p # a # ys"
  have pa': "path (heap ?s) (root ?s) ns' None"
    unfolding h rt ns'_def using pa a(1,2,3) unfolding split
    by (rule path_link) (simp add: updateNext_def next_def)
  have sets: "set ns' = insert a (set ns)" unfolding ns'_def split by auto
  have ap: "a \<noteq> p" using a(2) p by auto
  have nth: "heap ?s ! x = (if x = p then ?n else heap s ! x)" for x
    using pl by (simp add: h nth_list_update)
  have mu: "mutex (heap ?s ! x) = mutex (heap s ! x)" for x
  proof (cases "x = p")
    case True
    then show ?thesis using pl by (simp add: store_def updateNext_def)
  next
    case False
    then show ?thesis by (simp add: store_def)
  qed
  have mk: "marked (heap ?s ! x) = marked (heap s ! x)" for x
  proof (cases "x = p")
    case True
    then show ?thesis using pl by (simp add: store_def updateNext_def marked_def)
  next
    case False
    then show ?thesis by (simp add: store_def)
  qed
  have "\<forall>x \<in> set ns'. (mutex (heap ?s ! x) \<longleftrightarrow> x \<in> L) \<and> (marked (heap ?s ! x) \<longleftrightarrow> x \<in> M)"
    unfolding sets mu mk using s a(4,5) by (auto simp: shape_def)
  moreover have "ns' \<noteq> []" by (simp add: ns'_def)
  ultimately have "shape ?s ns' L M" using pa' unfolding shape_def by blast
  with sets show ?thesis by blast
qed

lemma keeps_marks_refl: "keeps_marks s s"
  by (simp add: keeps_marks_def)

lemma keeps_marks_store:
  assumes "b < length (heap s) \<Longrightarrow> marked (heap s ! b) \<Longrightarrow> marked n"
  shows "keeps_marks s (store s b n)"
proof -
  have "marked ((heap s)[b := n] ! a)" if "a < length (heap s)" "marked (heap s ! a)" for a
    using that assms by (cases "a = b") simp_all
  then show ?thesis by (simp add: keeps_marks_def store_def)
qed

lemma keeps_marks_alloc: "keeps_marks s (s\<lparr>heap := heap s @ [n]\<rparr>)"
  by (simp add: keeps_marks_def nth_append)

lemma keeps_marks_size: "keeps_marks s (s\<lparr>size := z\<rparr>)"
  by (simp add: keeps_marks_def)

lemma Lock_Step:
  assumes "Lock s p l = Step s' l'"
  shows "\<exists>a. p = Some a \<and> a < length (heap s) \<and> \<not> mutex (heap s ! a) \<and>
     s' = store s a ((heap s ! a)\<lparr>mutex := True\<rparr>) \<and> l' = l"
  using assms by (cases p) (auto simp: Lock_def deref_def split: if_splits)

lemma Unlock_Step:
  assumes "Unlock s p l = Step s' l'"
  shows "\<exists>a. p = Some a \<and> a < length (heap s) \<and> mutex (heap s ! a) \<and>
     s' = store s a ((heap s ! a)\<lparr>mutex := False\<rparr>) \<and> l' = l"
  using assms by (cases p) (auto simp: Unlock_def deref_def split: if_splits)

lemma deref_Inr: "deref s p = Inr n \<Longrightarrow> \<exists>a. p = Some a \<and> a < length (heap s) \<and> n = heap s ! a"
  by (cases p) (auto simp: deref_def split: if_splits)

lemma marked_mutex_update [simp]: "marked (n\<lparr>mutex := b\<rparr>) = marked n"
  by (simp add: marked_def)

lemma marked_updateNext [simp]: "marked (updateNext n p) = marked n"
  by (simp add: marked_def updateNext_def)

lemma marked_mark [simp]: "marked (mark n)"
  by (simp add: marked_def mark_def)

lemma next_mutex_update [simp]: "next (n\<lparr>mutex := b\<rparr>) = next n"
  by (simp add: next_def)

lemma next_updateNext [simp]: "next (updateNext n p) = p"
  by (simp add: next_def updateNext_def)

lemma next_mark [simp]: "next (mark n) = next n"
  by (simp add: next_def mark_def)

lemma mutex_updateNext [simp]: "mutex (updateNext n p) = mutex n"
  by (simp add: updateNext_def)

lemma mutex_mark [simp]: "mutex (mark n) = mutex n"
  by (simp add: mark_def)

lemma Insert_step_keeps_marks:
  assumes "Insert_step s l = Step s' l'"
  shows "keeps_marks s s'"
proof (cases l)
  case (I89 v pre cur)
  with assms have "Lock s pre (I91 v pre cur) = (Step s' l' :: (insert_pc, bool) step)" by simp
  from Lock_Step [OF this] show ?thesis
    by (auto intro!: keeps_marks_store)
next
  case (I92 v pre cur)
  with assms have "Unlock s pre (I77 v) = (Step s' l' :: (insert_pc, bool) step)" by simp
  from Unlock_Step [OF this] show ?thesis
    by (auto intro!: keeps_marks_store)
next
  case (I96 v pre cur)
  with assms show ?thesis by (auto simp: alloc_def keeps_marks_alloc)
next
  case (I98 v pre cur new)
  with assms show ?thesis
    by (auto split: sum.splits dest!: deref_Inr intro!: keeps_marks_store)
next
  case (I100 v pre cur new)
  with assms show ?thesis by (auto simp: sizeIncr_def keeps_marks_size)
next
  case (I101 v pre cur new)
  with assms show ?thesis
    by (auto split: sum.splits dest!: deref_Inr intro!: keeps_marks_store)
next
  case (I102 v pre cur new)
  with assms have "Unlock s pre I103 = (Step s' l' :: (insert_pc, bool) step)" by simp
  from Unlock_Step [OF this] show ?thesis
    by (auto intro!: keeps_marks_store)
qed (use assms in \<open>auto split: sum.splits if_splits simp: keeps_marks_refl\<close>)

lemma Insert_inv_shape: "Insert_inv ns s l \<Longrightarrow> \<exists>L M. shape s ns L M"
  by (cases l) auto

lemma Insert_inv_step:
  assumes inv: "Insert_inv ns s l" and step: "Insert_step s l = Step s' l'"
  shows "\<exists>ns'. Insert_inv ns' s' l' \<and> set ns \<subseteq> set ns'"
proof (cases l)
  case (I77 v)
  with inv step shape_root [of s ns "{}" "{}"] show ?thesis
    by (auto simp: deref_Some between_def)
next
  case (I80 v pre cur)
  with inv obtain p where sh: "shape s ns {} {}" and p: "pre = Some p" "p \<in> set ns"
      "next (heap s ! p) = cur"
    by (auto simp: between_def)
  show ?thesis
  proof (cases cur)
    case None
    with I80 inv step show ?thesis by auto
  next
    case (Some c)
    with shape_next_in [OF sh p(2)] p(3) have "c \<in> set ns" by simp
    with shape_valid [OF sh] have "c < length (heap s)" by simp
    with I80 Some inv step show ?thesis by (auto simp: deref_Some split: if_splits)
  qed
next
  case (I81 v pre cur)
  with inv obtain p c where sh: "shape s ns {} {}" and p: "pre = Some p" "p \<in> set ns"
      "next (heap s ! p) = cur" and c: "cur = Some c"
    by (auto simp: between_def)
  with shape_next_in [OF sh p(2)] have cin: "c \<in> set ns" by simp
  with shape_valid [OF sh] have "c < length (heap s)" by simp
  with I81 c cin sh step show ?thesis by (auto simp: deref_Some between_def)
next
  case (I85 v pre cur)
  with inv step show ?thesis by (auto split: if_splits sum.splits)
next
  case (I89 v pre cur)
  with inv obtain p where sh: "shape s ns {} {}" and p: "pre = Some p" "p \<in> set ns"
      "next (heap s ! p) = cur"
    by (auto simp: between_def)
  from step I89 have "Lock s pre (I91 v pre cur) = (Step s' l' :: (insert_pc, bool) step)" by simp
  from Lock_Step [OF this] p
  have s': "s' = store s p ((heap s ! p)\<lparr>mutex := True\<rparr>)" and l': "l' = I91 v pre cur"
    and pl: "p < length (heap s)"
    by auto
  have "shape s' ns {p} {}"
    using shape_update [OF sh pl, of "(heap s ! p)\<lparr>mutex := True\<rparr>"] shape_marked [OF sh p(2)]
    by (simp add: s')
  moreover have "between s' ns pre cur"
    using p pl by (auto simp: between_def s' store_def)
  ultimately show ?thesis using l' p by auto
next
  case (I91 v pre cur)
  with inv step show ?thesis
    by (auto simp: between_def split: if_splits sum.splits dest!: deref_Inr)
next
  case (I91b v pre cur)
  with inv obtain p where sh: "shape s ns {p} {}" and p: "pre = Some p" "p \<in> set ns"
      "next (heap s ! p) = cur"
    by (auto simp: between_def)
  from shape_marked [OF sh p(2)] have "\<not> marked (heap s ! p)" by simp
  with I91b inv step p show ?thesis
    by (auto split: if_splits sum.splits dest!: deref_Inr)
next
  case (I91c v pre cur)
  with inv obtain p where sh: "shape s ns {p} {}" and p: "pre = Some p" "p \<in> set ns"
      "next (heap s ! p) = cur"
    by (auto simp: between_def)
  show ?thesis
  proof (cases cur)
    case None
    with I91c inv step show ?thesis by auto
  next
    case (Some c)
    with shape_next_in [OF sh p(2)] p(3) have "c \<in> set ns" by simp
    with shape_marked [OF sh] have "\<not> marked (heap s ! c)" by simp
    with I91c Some inv step show ?thesis
      by (auto split: if_splits sum.splits dest!: deref_Inr)
  qed
next
  case (I92 v pre cur)
  with inv show ?thesis by simp
next
  case (I96 v pre cur)
  with inv obtain p where sh: "shape s ns {p} {}" and p: "pre = Some p" "p \<in> set ns"
      "next (heap s ! p) = cur"
    by (auto simp: between_def)
  let ?a = "length (heap s)"
  from step I96 have s': "s' = s\<lparr>heap := heap s @ [newIntNode v]\<rparr>"
    and l': "l' = I98 v pre cur (Some ?a)"
    by (auto simp: alloc_def)
  have valid: "x \<in> set ns \<Longrightarrow> x < ?a" for x using shape_valid [OF sh] by simp
  have "shape s' ns {p} {}" unfolding s' using sh by (rule shape_grow)
  moreover have "between s' ns pre cur"
    using p valid [of p] by (auto simp: between_def s' nth_append)
  moreover have "fresh s' ns (Some ?a)"
    using valid by (auto simp: fresh_def s' newIntNode_def marked_def)
  ultimately show ?thesis using l' p by auto
next
  case (I98 v pre cur new)
  with inv obtain p a where sh: "shape s ns {p} {}" and p: "pre = Some p" "p \<in> set ns"
      "next (heap s ! p) = cur" and a: "new = Some a" "a < length (heap s)" "a \<notin> set ns"
      "\<not> mutex (heap s ! a)" "\<not> marked (heap s ! a)"
    by (auto simp: between_def fresh_def)
  from step I98 a have s': "s' = store s a (updateNext (heap s ! a) cur)"
    and l': "l' = I100 v pre cur new"
    by (auto simp: deref_Some)
  have pa: "p \<noteq> a" using p a by auto
  have "shape s' ns {p} {}" unfolding s' using sh a(3) by (simp add: shape_store_off)
  moreover have "between s' ns pre cur"
    using p pa by (auto simp: between_def s' store_def)
  moreover have "fresh s' ns new" "next (heap s' ! a) = cur"
    using a by (auto simp: fresh_def s' store_def)
  ultimately show ?thesis using l' p a by auto
next
  case (I100 v pre cur new)
  with inv step show ?thesis
    by (auto simp: sizeIncr_def shape_size between_def fresh_def)
next
  case (I101 v pre cur new)
  with inv obtain p a where sh: "shape s ns {p} {}" and p: "pre = Some p" "p \<in> set ns"
      "next (heap s ! p) = cur" and a: "new = Some a" "a < length (heap s)" "a \<notin> set ns"
      "\<not> mutex (heap s ! a)" "\<not> marked (heap s ! a)" "next (heap s ! a) = cur"
    by (auto simp: between_def fresh_def)
  have pl: "p < length (heap s)" using shape_valid [OF sh p(2)] .
  from step I101 p pl a have s': "s' = store s p (updateNext (heap s ! p) (Some a))"
    and l': "l' = I102 v pre cur new"
    by (auto simp: deref_Some)
  have pa: "a \<noteq> p" using p a by auto
  from shape_link [OF sh p(2) a(2) a(3), folded s'] a p pa
  obtain ns' where "shape s' ns' {p} {}" "set ns' = insert a (set ns)" by auto
  then show ?thesis using l' p by auto
next
  case (I102 v pre cur new)
  with inv obtain p where sh: "shape s ns {p} {}" and p: "pre = Some p" "p \<in> set ns"
    by auto
  from step I102 have "Unlock s pre I103 = (Step s' l' :: (insert_pc, bool) step)" by simp
  from Unlock_Step [OF this] p
  have s': "s' = store s p ((heap s ! p)\<lparr>mutex := False\<rparr>)" and l': "l' = I103"
    and pl: "p < length (heap s)"
    by auto
  have "shape s' ns {} {}"
    using shape_update [OF sh pl, of "(heap s ! p)\<lparr>mutex := False\<rparr>"] shape_marked [OF sh p(2)]
    by (simp add: s')
  then show ?thesis using l' by auto
next
  case I103
  with step show ?thesis by simp
qed

lemma shape_next_other:
  assumes s: "shape s ns L M" and p: "p \<in> set ns" and n: "next (heap s ! p) = Some c"
  shows "c \<noteq> p"
proof -
  from s have pa: "path (heap s) (root s) ns None" by (simp add: shape_def)
  from p obtain xs zs where split: "ns = xs @ p # zs" by (metis in_set_conv_decomp)
  with pa n have "path (heap s) (Some c) zs None" by (auto simp: path_append)
  then obtain ys where "zs = c # ys" by (cases zs) auto
  with path_distinct [OF pa] split show ?thesis by auto
qed

lemma shape_unlink:
  assumes s: "shape s ns L M" and p: "p \<in> set ns" and n: "next (heap s ! p) = Some c"
  shows "\<exists>ns'. shape (store s p (updateNext (heap s ! p) (next (heap s ! c)))) ns' L M \<and>
     set ns' = set ns - {c} \<and> c \<in> set ns"
proof -
  let ?n = "updateNext (heap s ! p) (next (heap s ! c))"
  let ?s = "store s p ?n"
  from s have pa: "path (heap s) (root s) ns None" by (simp add: shape_def)
  from p obtain xs zs where split0: "ns = xs @ p # zs" by (metis in_set_conv_decomp)
  with pa n have "path (heap s) (Some c) zs None" by (auto simp: path_append)
  then obtain ys where "zs = c # ys" by (cases zs) auto
  with split0 have split: "ns = xs @ p # c # ys" by simp
  have pl: "p < length (heap s)" using shape_valid [OF s p] .
  define ns' where "ns' = xs @ p # ys"
  have "path ((heap s)[c := heap s ! c, p := ?n]) (root s) ns' None"
    unfolding ns'_def using pa unfolding split by (rule path_cut_out) simp
  then have pa': "path (heap ?s) (root ?s) ns' None" by (simp add: store_def)
  from path_distinct [OF pa] have sets: "set ns' = set ns - {c}"
    unfolding ns'_def split by auto
  have mu: "mutex (heap ?s ! x) = mutex (heap s ! x)" for x
  proof (cases "x = p")
    case True
    then show ?thesis using pl by (simp add: store_def)
  next
    case False
    then show ?thesis by (simp add: store_def)
  qed
  have mk: "marked (heap ?s ! x) = marked (heap s ! x)" for x
  proof (cases "x = p")
    case True
    then show ?thesis using pl by (simp add: store_def)
  next
    case False
    then show ?thesis by (simp add: store_def)
  qed
  have "\<forall>x \<in> set ns'. (mutex (heap ?s ! x) \<longleftrightarrow> x \<in> L) \<and> (marked (heap ?s ! x) \<longleftrightarrow> x \<in> M)"
    unfolding sets mu mk using s by (auto simp: shape_def)
  moreover have "ns' \<noteq> []" by (simp add: ns'_def)
  ultimately have "shape ?s ns' L M" using pa' unfolding shape_def by blast
  moreover have "c \<in> set ns" by (simp add: split)
  ultimately show ?thesis using sets by blast
qed

lemma Delete_step_keeps_marks:
  assumes "Delete_step s l = Step s' l'"
  shows "keeps_marks s s'"
proof (cases l)
  case (D120 v pre cur)
  with assms have "Lock s cur (D122 v pre cur) = (Step s' l' :: (delete_pc, bool) step)" by simp
  from Lock_Step [OF this] show ?thesis by (auto intro!: keeps_marks_store)
next
  case (D123 v pre cur)
  with assms have "Unlock s cur (D108 v) = (Step s' l' :: (delete_pc, bool) step)" by simp
  from Unlock_Step [OF this] show ?thesis by (auto intro!: keeps_marks_store)
next
  case (D127 v pre cur)
  with assms have "Lock s pre (D129 v pre cur) = (Step s' l' :: (delete_pc, bool) step)" by simp
  from Lock_Step [OF this] show ?thesis by (auto intro!: keeps_marks_store)
next
  case (D131 v pre cur)
  with assms have "Unlock s pre (D132 v pre cur) = (Step s' l' :: (delete_pc, bool) step)" by simp
  from Unlock_Step [OF this] show ?thesis by (auto intro!: keeps_marks_store)
next
  case (D132 v pre cur)
  with assms have "Unlock s cur (D108 v) = (Step s' l' :: (delete_pc, bool) step)" by simp
  from Unlock_Step [OF this] show ?thesis by (auto intro!: keeps_marks_store)
next
  case (D136 v pre cur)
  with assms show ?thesis
    by (auto split: sum.splits dest!: deref_Inr intro!: keeps_marks_store)
next
  case (D137b v pre cur nxt)
  with assms show ?thesis
    by (auto split: sum.splits dest!: deref_Inr intro!: keeps_marks_store)
next
  case (D138 v pre cur)
  with assms show ?thesis by (auto simp: sizeDecr_def keeps_marks_size)
next
  case (D140 v pre cur)
  with assms have "Unlock s pre (D141 v pre cur) = (Step s' l' :: (delete_pc, bool) step)" by simp
  from Unlock_Step [OF this] show ?thesis by (auto intro!: keeps_marks_store)
next
  case (D141 v pre cur)
  with assms have "Unlock s cur D142 = (Step s' l' :: (delete_pc, bool) step)" by simp
  from Unlock_Step [OF this] show ?thesis by (auto intro!: keeps_marks_store)
qed (use assms in \<open>auto split: sum.splits if_splits simp: keeps_marks_refl\<close>)

lemma Delete_inv_shape: "Delete_inv ns s l \<Longrightarrow> \<exists>L M. shape s ns L M"
  by (cases l) auto

lemma Delete_inv_step:
  assumes inv: "Delete_inv ns s l" and step: "Delete_step s l = Step s' l'"
  shows "\<exists>ns'. Delete_inv ns' s' l' \<and> (\<forall>a \<in> set ns - set ns'. marked (heap s ! a))"
proof (cases l)
  case (D108 v)
  with inv step shape_root [of s ns "{}" "{}"] show ?thesis
    by (auto simp: deref_Some between_def)
next
  case (D111 v pre cur)
  with inv obtain p where sh: "shape s ns {} {}" and p: "pre = Some p" "p \<in> set ns"
      "next (heap s ! p) = cur"
    by (auto simp: between_def)
  show ?thesis
  proof (cases cur)
    case None
    with D111 inv step show ?thesis by auto
  next
    case (Some c)
    with shape_next_in [OF sh p(2)] p(3) have "c \<in> set ns" by simp
    with shape_valid [OF sh] have "c < length (heap s)" by simp
    with D111 Some inv step show ?thesis by (auto simp: deref_Some split: if_splits)
  qed
next
  case (D112 v pre cur)
  with inv obtain p c where sh: "shape s ns {} {}" and p: "pre = Some p" "p \<in> set ns"
      "next (heap s ! p) = cur" and c: "cur = Some c"
    by (auto simp: between_def)
  with shape_next_in [OF sh p(2)] have cin: "c \<in> set ns" by simp
  with shape_valid [OF sh] have "c < length (heap s)" by simp
  with D112 c cin sh step show ?thesis by (auto simp: deref_Some between_def)
next
  case (D116 v pre cur)
  with inv step show ?thesis by (auto split: if_splits sum.splits)
next
  case (D120 v pre cur)
  with inv obtain p c where sh: "shape s ns {} {}" and p: "pre = Some p" "p \<in> set ns"
      "next (heap s ! p) = cur" and c: "cur = Some c"
    by (auto simp: between_def)
  with shape_next_in [OF sh p(2)] have cin: "c \<in> set ns" by simp
  have cp: "c \<noteq> p" using shape_next_other [OF sh p(2)] p(3) c by simp
  from step D120 have "Lock s cur (D122 v pre cur) = (Step s' l' :: (delete_pc, bool) step)" by simp
  from Lock_Step [OF this] c
  have s': "s' = store s c ((heap s ! c)\<lparr>mutex := True\<rparr>)" and l': "l' = D122 v pre cur"
    and cl: "c < length (heap s)"
    by auto
  have "shape s' ns {c} {}"
    using shape_update [OF sh cl, of "(heap s ! c)\<lparr>mutex := True\<rparr>"] shape_marked [OF sh cin]
    by (simp add: s')
  moreover have "between s' ns pre cur"
    using p cp by (auto simp: between_def s' store_def)
  ultimately show ?thesis using l' c by auto
next
  case (D122 v pre cur)
  with inv obtain p c where sh: "shape s ns {c} {}" and p: "pre = Some p" "p \<in> set ns"
      "next (heap s ! p) = cur" and c: "cur = Some c"
    by (auto simp: between_def)
  with shape_next_in [OF sh p(2)] have cin: "c \<in> set ns" by simp
  from shape_marked [OF sh cin] have "\<not> marked (heap s ! c)" by simp
  with D122 inv step c show ?thesis
    by (auto split: if_splits sum.splits dest!: deref_Inr)
next
  case (D123 v pre cur)
  with inv show ?thesis by simp
next
  case (D127 v pre cur)
  with inv obtain p c where sh: "shape s ns {c} {}" and p: "pre = Some p" "p \<in> set ns"
      "next (heap s ! p) = cur" and c: "cur = Some c"
    by (auto simp: between_def)
  from step D127 have "Lock s pre (D129 v pre cur) = (Step s' l' :: (delete_pc, bool) step)" by simp
  from Lock_Step [OF this] p
  have s': "s' = store s p ((heap s ! p)\<lparr>mutex := True\<rparr>)" and l': "l' = D129 v pre cur"
    and pl: "p < length (heap s)"
    by auto
  have "shape s' ns {p, c} {}"
    using shape_update [OF sh pl, of "(heap s ! p)\<lparr>mutex := True\<rparr>"] shape_marked [OF sh p(2)]
    by (simp add: s')
  moreover have "between s' ns pre cur"
    using p pl by (auto simp: between_def s' store_def)
  ultimately show ?thesis using l' p c by auto
next
  case (D129 v pre cur)
  with inv step show ?thesis
    by (auto simp: between_def split: if_splits sum.splits dest!: deref_Inr)
next
  case (D129b v pre cur)
  with inv obtain p c where sh: "shape s ns {p, c} {}" and p: "pre = Some p" "p \<in> set ns"
      "next (heap s ! p) = cur" and c: "cur = Some c"
    by (auto simp: between_def)
  from shape_marked [OF sh p(2)] have "\<not> marked (heap s ! p)" by simp
  with D129b inv step p show ?thesis
    by (auto split: if_splits sum.splits dest!: deref_Inr)
next
  case (D131 v pre cur)
  with inv show ?thesis by simp
next
  case (D132 v pre cur)
  with inv show ?thesis by simp
next
  case (D136 v pre cur)
  with inv obtain p c where sh: "shape s ns {p, c} {}" and p: "pre = Some p" "p \<in> set ns"
      "next (heap s ! p) = cur" and c: "cur = Some c"
    by (auto simp: between_def)
  with shape_next_in [OF sh p(2)] have cin: "c \<in> set ns" by simp
  have cl: "c < length (heap s)" using shape_valid [OF sh cin] .
  have cp: "c \<noteq> p" using shape_next_other [OF sh p(2)] p(3) c by simp
  from step D136 c cl have s': "s' = store s c (mark (heap s ! c))" and l': "l' = D137 v pre cur"
    by (auto simp: deref_Some)
  have "shape s' ns {p, c} {c}"
    using shape_update [OF sh cl, of "mark (heap s ! c)"] shape_mutex [OF sh cin]
    by (simp add: s' insert_absorb)
  moreover have "between s' ns pre cur"
    using p cp by (auto simp: between_def s' store_def)
  ultimately show ?thesis using l' p c by auto
next
  case (D137 v pre cur)
  with inv obtain p c where sh: "shape s ns {p, c} {c}" and p: "pre = Some p" "p \<in> set ns"
      "next (heap s ! p) = cur" and c: "cur = Some c"
    by (auto simp: between_def)
  with shape_next_in [OF sh p(2)] have cin: "c \<in> set ns" by simp
  have cl: "c < length (heap s)" using shape_valid [OF sh cin] .
  with D137 inv step c show ?thesis by (auto simp: deref_Some)
next
  case (D137b v pre cur nxt)
  with inv obtain p c where sh: "shape s ns {p, c} {c}" and p: "pre = Some p" "p \<in> set ns"
      "next (heap s ! p) = cur" and c: "cur = Some c" "nxt = next (heap s ! c)"
    by (auto simp: between_def)
  have pl: "p < length (heap s)" using shape_valid [OF sh p(2)] .
  from step D137b p pl c have s': "s' = store s p (updateNext (heap s ! p) (next (heap s ! c)))"
    and l': "l' = D138 v pre cur"
    by (auto simp: deref_Some)
  have n: "next (heap s ! p) = Some c" using p c by simp
  have cp: "c \<noteq> p" using shape_next_other [OF sh p(2) n] .
  from shape_unlink [OF sh p(2) n, folded s']
  obtain ns' where sh': "shape s' ns' {p, c} {c}" and sets: "set ns' = set ns - {c}"
    and cin: "c \<in> set ns"
    by blast
  have cn: "c \<notin> set ns'" using sets by simp
  from shape_off [OF sh' cn] cp have "shape s' ns' {p} {}" by (simp add: insert_Diff_if)
  moreover have "p \<in> set ns'" using sets p cp by simp
  moreover have "gone s' ns' cur"
    using c cn cp shape_valid [OF sh cin] shape_mutex [OF sh cin] shape_marked [OF sh cin]
    by (simp add: gone_def s' store_def)
  moreover have "\<forall>a \<in> set ns - set ns'. marked (heap s ! a)"
    using sets shape_marked [OF sh cin] by auto
  ultimately show ?thesis using l' p by auto
next
  case (D138 v pre cur)
  with inv step show ?thesis
    by (auto simp: sizeDecr_def shape_size gone_def)
next
  case (D140 v pre cur)
  with inv obtain p c where sh: "shape s ns {p} {}" and p: "pre = Some p" "p \<in> set ns"
    and c: "cur = Some c" "c < length (heap s)" "c \<notin> set ns" "mutex (heap s ! c)"
      "marked (heap s ! c)"
    by (auto simp: gone_def)
  from step D140 have "Unlock s pre (D141 v pre cur) = (Step s' l' :: (delete_pc, bool) step)" by simp
  from Unlock_Step [OF this] p
  have s': "s' = store s p ((heap s ! p)\<lparr>mutex := False\<rparr>)" and l': "l' = D141 v pre cur"
    and pl: "p < length (heap s)"
    by auto
  have cp: "c \<noteq> p" using c p by auto
  have "shape s' ns {} {}"
    using shape_update [OF sh pl, of "(heap s ! p)\<lparr>mutex := False\<rparr>"] shape_marked [OF sh p(2)]
    by (simp add: s')
  moreover have "gone s' ns cur"
    using c cp by (simp add: gone_def s' store_def)
  ultimately show ?thesis using l' by auto
next
  case (D141 v pre cur)
  with inv obtain c where sh: "shape s ns {} {}"
    and c: "cur = Some c" "c < length (heap s)" "c \<notin> set ns"
    by (auto simp: gone_def)
  from step D141 have "Unlock s cur D142 = (Step s' l' :: (delete_pc, bool) step)" by simp
  from Unlock_Step [OF this] c
  have s': "s' = store s c ((heap s ! c)\<lparr>mutex := False\<rparr>)" and l': "l' = D142"
    by auto
  have "shape s' ns {} {}" unfolding s' using sh c(3) by (simp add: shape_store_off)
  then show ?thesis using l' by auto
next
  case D142
  with step show ?thesis by simp
qed

section \<open>Every step of a call\<close>

lemma config_at_Suc:
  "config_at stp (Suc n) s l =
     (case config_at stp n s l of
        None \<Rightarrow> None
      | Some (s1, l1) \<Rightarrow> (case stp s1 l1 of Step s2 l2 \<Rightarrow> Some (s2, l2) | _ \<Rightarrow> None))"
proof (induction n arbitrary: s l)
  case 0
  show ?case by (simp split: step.splits)
next
  case (Suc n)
  show ?case
    by (cases "stp s l") (simp_all add: Suc [simplified])
qed

lemma config_at_Insert_inv:
  "Insert_inv ns s l \<Longrightarrow> config_at Insert_step n s l = Some (s', l') \<Longrightarrow> \<exists>ns'. Insert_inv ns' s' l'"
proof (induction n arbitrary: ns s l)
  case 0
  then show ?case by auto
next
  case (Suc n)
  from Suc.prems(2) obtain s1 l1 where 1: "Insert_step s l = Step s1 l1"
    and 2: "config_at Insert_step n s1 l1 = Some (s', l')"
    by (auto split: step.splits)
  from Insert_inv_step [OF Suc.prems(1) 1] obtain ns1 where "Insert_inv ns1 s1 l1" by blast
  from Suc.IH [OF this 2] show ?case .
qed

lemma config_at_Delete_inv:
  "Delete_inv ns s l \<Longrightarrow> config_at Delete_step n s l = Some (s', l') \<Longrightarrow> \<exists>ns'. Delete_inv ns' s' l'"
proof (induction n arbitrary: ns s l)
  case 0
  then show ?case by auto
next
  case (Suc n)
  from Suc.prems(2) obtain s1 l1 where 1: "Delete_step s l = Step s1 l1"
    and 2: "config_at Delete_step n s1 l1 = Some (s', l')"
    by (auto split: step.splits)
  from Delete_inv_step [OF Suc.prems(1) 1] obtain ns1 where "Delete_inv ns1 s1 l1" by blast
  from Suc.IH [OF this 2] show ?case .
qed

lemma reachable_shape: "reachable s \<Longrightarrow> \<exists>ns. shape s ns {} {}"
proof -
  assume "reachable s"
  from reachable_rep [OF this] obtain r as where "quiescent s r as" by (auto simp: rep_def)
  then have "shape s (r # as) {} {}" unfolding quiescent_def shape_def by simp
  then show ?thesis ..
qed



lemma Insert_step_linked:
  assumes "Insert_inv ns s l" "Insert_step s l = Step s' l'" "linked s a"
  shows "linked s' a"
proof -
  from Insert_inv_step [OF assms(1,2)] obtain ns' where
    i: "Insert_inv ns' s' l'" and sub: "set ns \<subseteq> set ns'" by blast
  from Insert_inv_shape [OF assms(1)] obtain L M where "shape s ns L M" by blast
  with assms(3) have "a \<in> set ns" by (simp add: shape_linked)
  moreover from Insert_inv_shape [OF i] obtain L' M' where "shape s' ns' L' M'" by blast
  ultimately show ?thesis using sub by (auto simp: shape_linked)
qed

lemma Delete_step_unlinked:
  assumes "Delete_inv ns s l" "Delete_step s l = Step s' l'" "linked s a" "\<not> linked s' a"
  shows "marked (heap s ! a)"
proof -
  from Delete_inv_step [OF assms(1,2)] obtain ns' where
    i: "Delete_inv ns' s' l'" and sub: "\<forall>a \<in> set ns - set ns'. marked (heap s ! a)" by blast
  from Delete_inv_shape [OF assms(1)] obtain L M where "shape s ns L M" by blast
  with assms(3) have "a \<in> set ns" by (simp add: shape_linked)
  moreover from Delete_inv_shape [OF i] obtain L' M' where "shape s' ns' L' M'" by blast
  with assms(4) have "a \<notin> set ns'" by (simp add: shape_linked)
  ultimately show ?thesis using sub by blast
qed

lemma Delete_inv_mark:
  assumes "Delete_inv ns s (D136 v pre cur)"
  shows "\<exists>c. cur = Some c \<and> linked s c \<and> \<not> marked (heap s ! c)"
proof -
  from assms obtain p c where sh: "shape s ns {p, c} {}" and p: "pre = Some p" "p \<in> set ns"
      "next (heap s ! p) = cur" and c: "cur = Some c"
    by (auto simp: between_def)
  with shape_next_in [OF sh p(2)] have cin: "c \<in> set ns" by simp
  with shape_marked [OF sh cin] shape_linked [OF sh, of c] c show ?thesis by simp
qed

lemma Contains_step_same: "Contains_step s l = Step s' l' \<Longrightarrow> s' = s"
  by (cases l) (auto split: sum.splits if_splits)

lemma Range_step_same: "Range_step (quiet f) s l = Step s' l' \<Longrightarrow> s' = s"
  by (cases l) (auto simp: quiet_def split: sum.splits if_splits prod.splits)

lemma Range_step_visitor:
  "Range_step f s l = Step s' l' \<Longrightarrow> s' = s \<or> (\<exists>acc v. s' = snd (snd (f acc v s)))"
  by (cases l) (auto split: sum.splits if_splits prod.splits, (metis snd_conv)+)

lemma linked_path: "path (heap s) (root s) ns None \<Longrightarrow> linked s a = (a \<in> set ns)"
  unfolding linked_def by (blast dest: path_unique)



text \<open>
  Claim C9. A new node is unmarked, and so is every node of a new list. No step of any
  operation clears a mark: Insert and Delete keep every mark that is set, Contains changes
  nothing, and a traversal changes nothing itself: a step of it leaves the state as it is,
  or as the call of the visitor has left it, and as it is when the visitor leaves the list
  alone. In a Delete started in a state reached by completed calls,
  the mark step (line 136) finds its node linked and unmarked, and a step after which a
  node is no longer linked finds that node marked already; a step of an Insert unlinks
  nothing.
\<close>

theorem marked_once_before_unlink:
  assumes "reachable s"
  shows "\<not> marked (newIntNode v) \<and>
     (\<forall>a < length (heap NewConcurrentIntList). \<not> marked (heap NewConcurrentIntList ! a)) \<and>
     (\<forall>t l t' l'. Insert_step t l = Step t' l' \<longrightarrow> keeps_marks t t') \<and>
     (\<forall>t l t' l'. Delete_step t l = Step t' l' \<longrightarrow> keeps_marks t t') \<and>
     (\<forall>t l t' l'. Contains_step t l = Step t' l' \<longrightarrow> t' = t) \<and>
     (\<forall>f t l t' l'. Range_step (quiet f) t l = Step t' l' \<longrightarrow> t' = t) \<and>
     (\<forall>f t l t' l'. Range_step f t l = Step t' l' \<longrightarrow>
        t' = t \<or> (\<exists>acc w. t' = snd (snd (f acc w t)))) \<and>
     (\<forall>n s1 w pre cur. config_at Delete_step n s (D108 v) = Some (s1, D136 w pre cur) \<longrightarrow>
        (\<exists>c. cur = Some c \<and> linked s1 c \<and> \<not> marked (heap s1 ! c))) \<and>
     (\<forall>n s1 l1 s2 l2 a. config_at Delete_step n s (D108 v) = Some (s1, l1) \<and>
        Delete_step s1 l1 = Step s2 l2 \<and> linked s1 a \<and> \<not> linked s2 a \<longrightarrow> marked (heap s1 ! a)) \<and>
     (\<forall>n s1 l1 s2 l2 a. config_at Insert_step n s (I77 v) = Some (s1, l1) \<and>
        Insert_step s1 l1 = Step s2 l2 \<and> linked s1 a \<longrightarrow> linked s2 a)"
proof -
  from reachable_shape [OF assms] obtain ns where sh: "shape s ns {} {}" by blast
  then have di: "Delete_inv ns s (D108 v)" and ii: "Insert_inv ns s (I77 v)" by simp_all
  have 1: "\<not> marked (newIntNode v)" by (simp add: newIntNode_def marked_def)
  have 2: "\<forall>a < length (heap NewConcurrentIntList). \<not> marked (heap NewConcurrentIntList ! a)"
    by (simp add: NewConcurrentIntList_def newIntNode_def marked_def)
  have 3: "\<exists>c. cur = Some c \<and> linked s1 c \<and> \<not> marked (heap s1 ! c)"
    if "config_at Delete_step n s (D108 v) = Some (s1, D136 w pre cur)" for n s1 w pre cur
    using config_at_Delete_inv [OF di that] by (blast dest: Delete_inv_mark)
  have 4: "marked (heap s1 ! a)"
    if "config_at Delete_step n s (D108 v) = Some (s1, l1)" "Delete_step s1 l1 = Step s2 l2"
      "linked s1 a" "\<not> linked s2 a" for n s1 l1 s2 l2 a
    using config_at_Delete_inv [OF di that(1)] that(2,3,4) by (blast dest: Delete_step_unlinked)
  have 5: "linked s2 a"
    if "config_at Insert_step n s (I77 v) = Some (s1, l1)" "Insert_step s1 l1 = Step s2 l2"
      "linked s1 a" for n s1 l1 s2 l2 a
    using config_at_Insert_inv [OF ii that(1)] that(2,3) by (blast dest: Insert_step_linked)
  show ?thesis
    using 1 2 3 4 5 Insert_step_keeps_marks Delete_step_keeps_marks Contains_step_same
      Range_step_same Range_step_visitor
    by blast
qed

theorem marked_once_before_unlink_witness:
  "reachable (state_after [InsertCall 5, InsertCall 1, InsertCall 3]) \<and>
   map_option snd (config_at Delete_step 10 (state_after [InsertCall 5, InsertCall 1, InsertCall 3]) (D108 3)) =
     Some (D136 3 (Some 2) (Some 3)) \<and>
   linked (state_at Delete_step 10 (state_after [InsertCall 5, InsertCall 1, InsertCall 3]) (D108 3)) 3 \<and>
   \<not> marked (heap (state_at Delete_step 10 (state_after [InsertCall 5, InsertCall 1, InsertCall 3]) (D108 3)) ! 3) \<and>
   map_option snd (config_at Delete_step 12 (state_after [InsertCall 5, InsertCall 1, InsertCall 3]) (D108 3)) =
     Some (D137b 3 (Some 2) (Some 3) (Some 1)) \<and>
   linked (state_at Delete_step 12 (state_after [InsertCall 5, InsertCall 1, InsertCall 3]) (D108 3)) 3 \<and>
   \<not> linked (state_at Delete_step 13 (state_after [InsertCall 5, InsertCall 1, InsertCall 3]) (D108 3)) 3 \<and>
   marked (heap (state_at Delete_step 12 (state_after [InsertCall 5, InsertCall 1, InsertCall 3]) (D108 3)) ! 3)"
proof -
  let ?s = "state_after [InsertCall 5, InsertCall 1, InsertCall 3]"
  let ?s10 = "state_at Delete_step 10 ?s (D108 3)"
  let ?s12 = "state_at Delete_step 12 ?s (D108 3)"
  let ?s13 = "state_at Delete_step 13 ?s (D108 3)"
  have r: "reachable ?s" by (rule reachable_state_after)
  have c10: "config_at Delete_step 10 ?s (D108 3) = Some (?s10, D136 3 (Some 2) (Some 3))"
    and c12: "config_at Delete_step 12 ?s (D108 3) = Some (?s12, D137b 3 (Some 2) (Some 3) (Some 1))"
    and st: "Delete_step ?s12 (D137b 3 (Some 2) (Some 3) (Some 1)) = Step ?s13 (D138 3 (Some 2) (Some 3))"
    and p12: "path (heap ?s12) (root ?s12) [0, 2, 3, 1] None"
    and p13: "path (heap ?s13) (root ?s13) [0, 2, 1] None"
    by code_simp+
  from linked_path [OF p12, of 3] have l12: "linked ?s12 3" by simp
  from linked_path [OF p13, of 3] have l13: "\<not> linked ?s13 3" by simp
  note inst = marked_once_before_unlink [OF r, of 3]
  from inst c10 have "linked ?s10 3 \<and> \<not> marked (heap ?s10 ! 3)" by blast
  moreover from inst c12 st l12 l13 have "marked (heap ?s12 ! 3)" by blast
  ultimately show ?thesis using r c10 c12 l12 l13 by simp
qed

section \<open>The calls of a sequence and the set they leave\<close>

lemma rep_do_call:
  assumes "rep s xs"
  shows "\<exists>s' xs'. do_call s c = Some (Inr (hd (expects [c] (set xs)), s')) \<and> rep s' xs' \<and>
     set xs' = apply_call c (set xs)"
proof (cases c)
  case (InsertCall w)
  show ?thesis
  proof (cases "w \<in> set xs")
    case True
    with assms InsertCall rep_Insert_present [of s xs w] show ?thesis
      by (auto simp: do_call_def)
  next
    case False
    with assms InsertCall rep_Insert_absent [of s xs w] show ?thesis
      by (fastforce simp: do_call_def set_put)
  qed
next
  case (DeleteCall w)
  show ?thesis
  proof (cases "w \<in> set xs")
    case True
    with assms DeleteCall rep_Delete_present [of s xs w] rep_ascending [of s xs] show ?thesis
      by (fastforce simp: do_call_def set_remove1_ascending)
  next
    case False
    with assms DeleteCall rep_Delete_absent [of s xs w] show ?thesis
      by (auto simp: do_call_def)
  qed
qed

lemma run_calls_expects:
  assumes "rep s xs"
  shows "\<exists>s' xs'. run_calls s cs = Some (Inr (expects cs (set xs), s')) \<and> rep s' xs' \<and>
     set xs' = fold apply_call cs (set xs)"
  using assms
proof (induction cs arbitrary: s xs)
  case Nil
  then show ?case by auto
next
  case (Cons c cs)
  from rep_do_call [OF Cons.prems, of c] obtain s1 xs1 where
    1: "do_call s c = Some (Inr (hd (expects [c] (set xs)), s1))" and r1: "rep s1 xs1"
    and x1: "set xs1 = apply_call c (set xs)" by blast
  from Cons.IH [OF r1] obtain s' xs' where
    2: "run_calls s1 cs = Some (Inr (expects cs (set xs1), s'))" and r2: "rep s' xs'"
    and x2: "set xs' = fold apply_call cs (set xs1)" by blast
  have "expects (c # cs) (set xs) = hd (expects [c] (set xs)) # expects cs (set xs1)"
    unfolding x1 by (cases c) simp_all
  with 1 2 have "run_calls s (c # cs) = Some (Inr (expects (c # cs) (set xs), s'))" by simp
  with r2 x2 x1 show ?case by auto
qed

text \<open>
  Claim C1, as the code has it. After any sequence of Insert and Delete calls on a new
  list, each run to its end, the calls have returned what the interface says (an Insert
  true exactly when its value was absent, a Delete true exactly when its value was
  present), and a traversal shows a strictly ascending sequence whose values are exactly
  the set the calls leave: each Insert adds its value, each Delete takes its value away.
  These are the values whose Insert calls that returned true outnumber their Delete calls
  that returned true. Inserting 5, 1 and 3 gives the traversal 1, 3, 5.
\<close>

theorem Range_after_calls:
  "(\<exists>s xs. run_calls NewConcurrentIntList cs = Some (Inr (expects cs {}, s)) \<and>
      Range s collect [] = Some (Inr (xs, s)) \<and> sorted_wrt (<) xs \<and>
      set xs = fold apply_call cs {} \<and>
      set xs = {v. 0 < net_true cs (expects cs {}) v}) \<and>
   Range (state_after [InsertCall 5, InsertCall 1, InsertCall 3]) collect [] =
     Some (Inr ([1, 3, 5], state_after [InsertCall 5, InsertCall 1, InsertCall 3]))"
proof
  from run_calls_expects [OF rep_new, of cs] obtain s xs where
    run: "run_calls NewConcurrentIntList cs = Some (Inr (expects cs {}, s))" and rep: "rep s xs"
    and set: "set xs = fold apply_call cs {}" by auto
  from run_calls_rep [OF rep_new, of cs] run obtain xs' where rep': "rep s xs'"
    and net: "\<And>v. (if v \<in> set xs' then 1 else 0) =
       (if v \<in> set [] then 1 else 0) + net_true cs (expects cs {}) v"
    by auto
  from rep_collect [OF rep] rep_collect [OF rep'] have "xs' = xs" by simp
  have "v \<in> set xs \<longleftrightarrow> 0 < net_true cs (expects cs {}) v" for v
    using net [of v] \<open>xs' = xs\<close> by (simp split: if_splits)
  then have "set xs = {v. 0 < net_true cs (expects cs {}) v}" by blast
  with run set rep_collect [OF rep] rep_ascending [OF rep]
  show "\<exists>s xs. run_calls NewConcurrentIntList cs = Some (Inr (expects cs {}, s)) \<and>
      Range s collect [] = Some (Inr (xs, s)) \<and> sorted_wrt (<) xs \<and>
      set xs = fold apply_call cs {} \<and>
      set xs = {v. 0 < net_true cs (expects cs {}) v}"
    by blast
  show "Range (state_after [InsertCall 5, InsertCall 1, InsertCall 3]) collect [] =
     Some (Inr ([1, 3, 5], state_after [InsertCall 5, InsertCall 1, InsertCall 3]))"
    by code_simp
qed

theorem Range_after_calls_witness:
  "run_calls NewConcurrentIntList [InsertCall 1, InsertCall 1, DeleteCall 1, InsertCall 4, DeleteCall 9] =
     Some (Inr ([True, False, True, True, False],
       state_after [InsertCall 1, InsertCall 1, DeleteCall 1, InsertCall 4, DeleteCall 9])) \<and>
   expects [InsertCall 1, InsertCall 1, DeleteCall 1, InsertCall 4, DeleteCall 9] {} =
     [True, False, True, True, False] \<and>
   Range (state_after [InsertCall 1, InsertCall 1, DeleteCall 1, InsertCall 4, DeleteCall 9]) collect [] =
     Some (Inr ([4], state_after [InsertCall 1, InsertCall 1, DeleteCall 1, InsertCall 4, DeleteCall 9])) \<and>
   fold apply_call [InsertCall 1, InsertCall 1, DeleteCall 1, InsertCall 4, DeleteCall 9] {} = {4} \<and>
   {v. 0 < net_true [InsertCall 1, InsertCall 1, DeleteCall 1, InsertCall 4, DeleteCall 9]
        [True, False, True, True, False] v} = {4}"
proof -
  let ?cs = "[InsertCall 1, InsertCall 1, DeleteCall 1, InsertCall 4, DeleteCall 9]"
  have run: "run_calls NewConcurrentIntList ?cs =
     Some (Inr ([True, False, True, True, False], state_after ?cs))"
    by code_simp
  have rng: "Range (state_after ?cs) collect [] = Some (Inr ([4], state_after ?cs))"
    by code_simp
  have ex: "expects ?cs {} = [True, False, True, True, False]" by simp
  have ap: "fold apply_call ?cs {} = {4}" by simp
  from Range_after_calls [of ?cs] obtain s xs where
    "run_calls NewConcurrentIntList ?cs = Some (Inr (expects ?cs {}, s))"
    "Range s collect [] = Some (Inr (xs, s))" "set xs = {v. 0 < net_true ?cs (expects ?cs {}) v}"
    by blast
  with run rng ex have "{v. 0 < net_true ?cs [True, False, True, True, False] v} = {4}"
    by simp
  with run rng ex ap show ?thesis by blast
qed

text \<open>Counted over all calls, whatever they returned, claim C1 fails: after Insert 1,
  Insert 1, Delete 1 the list is empty, yet 1 was inserted once more than deleted.\<close>

theorem call_count_counterexample:
  "run_calls NewConcurrentIntList [InsertCall 1, InsertCall 1, DeleteCall 1] =
     Some (Inr ([True, False, True], state_after [InsertCall 1, InsertCall 1, DeleteCall 1])) \<and>
   Range (state_after [InsertCall 1, InsertCall 1, DeleteCall 1]) collect [] =
     Some (Inr ([], state_after [InsertCall 1, InsertCall 1, DeleteCall 1])) \<and>
   0 < net_calls [InsertCall 1, InsertCall 1, DeleteCall 1] 1"
  by code_simp

section \<open>Every value is served\<close>

lemma quiescent_serves:
  assumes q: "quiescent s r as"
  shows "serves s (vals s as) v"
proof -
  from q have asc: "sorted_wrt (<) (vals s as)" by (simp add: quiescent_def)
  note rng = Range_collect [OF q] and con = Contains_quiescent [OF q, of v]
  have ins: "\<exists>s1. Insert s v = Some (Inr (v \<notin> set (vals s as), s1)) \<and>
      Contains s1 v = Some (Inr (True, s1)) \<and>
      Range s1 collect [] = Some (Inr (put v (vals s as), s1))"
  proof (cases "v \<in> set (vals s as)")
    case True
    with Insert_quiescent_present [OF q True] rng con show ?thesis
      by (intro exI [of _ s]) (simp add: put_def)
  next
    case False
    note i = Insert_quiescent_absent [OF q False]
    from Contains_quiescent [OF i(2), of v] Range_collect [OF i(2)] i(1,3) False show ?thesis
      by (simp add: put_def)
  qed
  have del: "\<exists>s2. Delete s v = Some (Inr (v \<in> set (vals s as), s2)) \<and>
      Contains s2 v = Some (Inr (False, s2)) \<and>
      Range s2 collect [] = Some (Inr (remove1 v (vals s as), s2))"
  proof (cases "v \<in> set (vals s as)")
    case True
    note d = Delete_quiescent_present [OF q True]
    from Contains_quiescent [OF d(2), of v] Range_collect [OF d(2)] d(1,3) True
      set_remove1_ascending [OF asc, of v]
    show ?thesis by simp
  next
    case False
    with Delete_quiescent_absent [OF q False] rng con show ?thesis
      by (intro exI [of _ s]) (simp add: remove1_idem)
  qed
  from rng con ins del show ?thesis by (simp add: serves_def)
qed

text \<open>
  Claim C7. No operation reads the value the sentinel stores, and the list serves every
  value, those of \<open>-1\<close> or less included. After any sequence of calls, with the elements
  \<open>xs\<close>: Contains tells whether \<open>v\<close> is among them; Insert returns true exactly when it is
  not, after which Contains finds it and a traversal shows it in its place; Delete returns
  true exactly when it is, after which Contains does not find it and a traversal shows the
  others. On an empty list Insert returns true, Contains then returns true, and a
  traversal shows \<open>v\<close> alone. All of this holds as well with any other value stored in the
  sentinel. A traversal shows \<open>-1\<close> only when some Insert of \<open>-1\<close> returned true.
\<close>

theorem sentinel_value_never_read:
  "\<exists>bs s xs. run_calls NewConcurrentIntList cs = Some (Inr (bs, s)) \<and>
      sorted_wrt (<) xs \<and> serves s xs v \<and> (\<forall>x. serves (with_sentinel x s) xs v) \<and>
      (xs = [] \<longrightarrow> (\<exists>s1. Insert s v = Some (Inr (True, s1)) \<and>
         Contains s1 v = Some (Inr (True, s1)) \<and> Range s1 collect [] = Some (Inr ([v], s1)))) \<and>
      (- 1 \<in> set xs \<longrightarrow> (\<exists>i < length cs. cs ! i = InsertCall (- 1) \<and> bs ! i))"
proof -
  from run_calls_rep [OF rep_new, of cs] obtain bs s xs where
    run: "run_calls NewConcurrentIntList cs = Some (Inr (bs, s))" and rep: "rep s xs"
    and len: "length bs = length cs"
    and net: "\<And>v. (if v \<in> set xs then 1 else 0) = (if v \<in> set [] then 1 else 0) + net_true cs bs v"
    by blast
  from rep obtain r as where q: "quiescent s r as" and xs: "vals s as = xs"
    by (auto simp: rep_def)
  from quiescent_serves [OF q, of v] xs have 1: "serves s xs v" by simp
  have 2: "serves (with_sentinel x s) xs v" for x
    using quiescent_serves [OF quiescent_with_sentinel(1) [OF q, of x], of v]
      quiescent_with_sentinel(2) [OF q, of x] xs
    by simp
  have 3: "\<exists>s1. Insert s v = Some (Inr (True, s1)) \<and>
         Contains s1 v = Some (Inr (True, s1)) \<and> Range s1 collect [] = Some (Inr ([v], s1))"
    if "xs = []"
    using 1 that by (simp add: serves_def put_def)
  have 4: "\<exists>i < length cs. cs ! i = InsertCall (- 1) \<and> bs ! i" if "- 1 \<in> set xs"
  proof -
    from that net [of "- 1"] have "0 < net_true cs bs (- 1)" by simp
    with len show ?thesis by (rule net_true_positive)
  qed
  from run rep_ascending [OF rep] 1 2 3 4 show ?thesis by blast
qed

theorem sentinel_value_never_read_witness:
  "(- 7 :: int) \<le> - 1 \<and>
   Insert NewConcurrentIntList (- 7) = Some (Inr (True, state_after [InsertCall (- 7)])) \<and>
   Contains (state_after [InsertCall (- 7)]) (- 7) = Some (Inr (True, state_after [InsertCall (- 7)])) \<and>
   Range (state_after [InsertCall (- 7)]) collect [] = Some (Inr ([- 7], state_after [InsertCall (- 7)])) \<and>
   Range (state_after [InsertCall 2, InsertCall (- 7)]) collect [] =
     Some (Inr ([- 7, 2], state_after [InsertCall 2, InsertCall (- 7)])) \<and>
   Delete (state_after [InsertCall 2, InsertCall (- 7)]) (- 7) =
     Some (Inr (True, state_after [InsertCall 2, InsertCall (- 7), DeleteCall (- 7)])) \<and>
   Contains (state_after [InsertCall 2, InsertCall (- 7), DeleteCall (- 7)]) (- 7) =
     Some (Inr (False, state_after [InsertCall 2, InsertCall (- 7), DeleteCall (- 7)])) \<and>
   Range (state_after [InsertCall 2, InsertCall (- 7), DeleteCall (- 7)]) collect [] =
     Some (Inr ([2], state_after [InsertCall 2, InsertCall (- 7), DeleteCall (- 7)])) \<and>
   (\<exists>s2. Delete (with_sentinel 100 (state_after [InsertCall 2, InsertCall (- 7)])) (- 7) =
       Some (Inr (True, s2)) \<and> Range s2 collect [] = Some (Inr ([2], s2)))"
proof -
  let ?a = "state_after [InsertCall (- 7)]"
  let ?s = "state_after [InsertCall 2, InsertCall (- 7)]"
  let ?b = "state_after [InsertCall 2, InsertCall (- 7), DeleteCall (- 7)]"
  have i: "Insert NewConcurrentIntList (- 7) = Some (Inr (True, ?a))" by code_simp
  have e: "run_calls NewConcurrentIntList [] = Some (Inr ([], NewConcurrentIntList))" by simp
  have run: "run_calls NewConcurrentIntList [InsertCall 2, InsertCall (- 7)] = Some (Inr ([True, True], ?s))"
    by code_simp
  have rng: "Range ?s collect [] = Some (Inr ([- 7, 2], ?s))" by code_simp
  have del: "Delete ?s (- 7) = Some (Inr (True, ?b))" by code_simp
  have new: "Range NewConcurrentIntList collect [] = Some (Inr ([], NewConcurrentIntList))"
    by code_simp
  from sentinel_value_never_read [of "[]" "- 7"] e new i
  have 1: "Contains ?a (- 7) = Some (Inr (True, ?a)) \<and> Range ?a collect [] = Some (Inr ([- 7], ?a))"
    by (auto simp: serves_def)
  from sentinel_value_never_read [of "[InsertCall 2, InsertCall (- 7)]" "- 7"] run rng
  have sv: "serves ?s [- 7, 2] (- 7)" "serves (with_sentinel 100 ?s) [- 7, 2] (- 7)"
    by (auto simp: serves_def)
  from sv(1) del have 2: "Contains ?b (- 7) = Some (Inr (False, ?b)) \<and>
      Range ?b collect [] = Some (Inr ([2], ?b))"
    by (auto simp: serves_def)
  from sv(2) have 3: "\<exists>s2. Delete (with_sentinel 100 ?s) (- 7) = Some (Inr (True, s2)) \<and>
      Range s2 collect [] = Some (Inr ([2], s2))"
    by (auto simp: serves_def)
  from i 1 rng del 2 3 show ?thesis by simp
qed

section \<open>A traversal whose visitor inserts\<close>







section \<open>Goroutines running calls at the same time\<close>








subsection \<open>Replacing one goroutine's state\<close>

lemma all_update:
  assumes "i < length ts"
  shows "(\<forall>j < length (ts[i := t]). P j (ts[i := t] ! j)) \<longleftrightarrow>
     P i t \<and> (\<forall>j < length ts. j \<noteq> i \<longrightarrow> P j (ts ! j))"
  using assms by (auto simp: nth_list_update)










subsection \<open>What the invariant gives\<close>








subsection \<open>Single writes under the invariant\<close>













subsection \<open>The steps of Insert that write\<close>

lemma value_updateNext [simp]: "value (updateNext n p) = value n"
  by (simp add: updateNext_def)







subsection \<open>Every step of a goroutine keeps the invariant\<close>


subsection \<open>Schedules\<close>

















end
